theory Spec2Isabelle
  imports Main
begin

section \<open>Directive markup: the key-tap pattern\<close>

text \<open>
  \<^verbatim>\<open>config.go\<close> compiles one regular expression, \<^verbatim>\<open>keyTapPattern\<close>, and
  \<^verbatim>\<open>simulateTyping\<close> asks Go's \<^verbatim>\<open>regexp\<close> package for all its successive submatch
  index arrays. The pattern is embedded as a syntax tree and the package's matching
  discipline as a function on that tree: a match begins as early as possible, and among the
  matches at that position it is the one a backtracking search finds first (greedy operators
  try the longer alternative first). A directive is a Go string, that is a sequence of
  bytes; every character the pattern names is ASCII, so matching byte by byte and matching
  rune by rune select the same spans.
\<close>

datatype regex =
    Chr char
  | Cls bool "(char \<times> char) list"
  | Seq regex regex
  | Star regex
  | Plus regex
  | Opt regex
  | Grp nat regex

text \<open>
  \<open>Cls neg rs\<close> is a bracket expression with the ranges \<open>rs\<close>, negated when \<open>neg\<close>
  holds; \<open>Grp n r\<close> is the \<open>n\<close>-th capturing group. A thread of the search is the
  current position together with the spans captured so far.
\<close>

type_synonym caps = "nat \<rightharpoonup> nat \<times> nat"
type_synonym thread = "nat \<times> caps"

definition inClass :: "bool \<Rightarrow> (char \<times> char) list \<Rightarrow> char \<Rightarrow> bool" where
  "inClass neg rs c =
     (list_ex (\<lambda>(lo, hi). (of_char lo :: nat) \<le> of_char c \<and> (of_char c :: nat) \<le> of_char hi) rs
        \<noteq> neg)"

text \<open>
  \<open>run r s t\<close> lists, in the order a backtracking search reaches them, the threads in
  which \<open>r\<close> has matched a span of \<open>s\<close> starting from thread \<open>t\<close>. Repetition is
  greedy: another iteration is tried before stopping. An iteration that consumes nothing is
  not repeated, and at most \<open>length s\<close> iterations can consume something, which is the
  fuel of \<open>star\<close>.
\<close>

fun star :: "(thread \<Rightarrow> thread list) \<Rightarrow> nat \<Rightarrow> thread \<Rightarrow> thread list" where
  "star f 0 t = [t]"
| "star f (Suc k) t =
     concat (map (\<lambda>t'. if fst t < fst t' then star f k t' else []) (f t)) @ [t]"

fun run :: "regex \<Rightarrow> string \<Rightarrow> thread \<Rightarrow> thread list" where
  "run (Chr a) s t = (if fst t < length s \<and> s ! fst t = a then [(Suc (fst t), snd t)] else [])"
| "run (Cls neg rs) s t =
     (if fst t < length s \<and> inClass neg rs (s ! fst t) then [(Suc (fst t), snd t)] else [])"
| "run (Seq r1 r2) s t = concat (map (run r2 s) (run r1 s t))"
| "run (Star r) s t = star (run r s) (length s - fst t) t"
| "run (Plus r) s t = concat (map (\<lambda>t'. star (run r s) (length s - fst t') t') (run r s t))"
| "run (Opt r) s t = run r s t @ [t]"
| "run (Grp n r) s t = map (\<lambda>t'. (fst t', (snd t')(n \<mapsto> (fst t, fst t')))) (run r s t)"

text \<open>
  The pattern of the source, with the five parts its comment enumerates:
  \<^verbatim>\<open>\{((?:[^\}]+\+)*[^\}]+)\}(?:\+([A-Za-z1-9]+))?(?:[ ;])?\<close>
\<close>

definition notBrace :: regex where
  "notBrace = Cls True [(CHR ''}'', CHR ''}'')]"

definition keyClass :: regex where
  "keyClass = Cls False [(CHR ''A'', CHR ''Z''), (CHR ''a'', CHR ''z''), (CHR ''1'', CHR ''9'')]"

definition modifierGroup :: regex where
  "modifierGroup = Grp 1 (Seq (Star (Seq (Plus notBrace) (Chr CHR ''+''))) (Plus notBrace))"

definition keySuffix :: regex where
  "keySuffix = Opt (Seq (Chr CHR ''+'') (Grp 2 (Plus keyClass)))"

definition separator :: regex where
  "separator = Opt (Cls False [(CHR '' '', CHR '' ''), (CHR '';'', CHR '';'')])"

definition keyTapPattern :: regex where
  "keyTapPattern =
     Seq (Chr CHR ''{'') (Seq modifierGroup (Seq (Chr CHR ''}'') (Seq keySuffix separator)))"

text \<open>
  A submatch index array holds the bounds of the whole match and then of each group, with
  \<open>-1\<close> twice for a group that took no part.
\<close>

fun groups :: "regex \<Rightarrow> nat list" where
  "groups (Chr a) = []"
| "groups (Cls neg rs) = []"
| "groups (Seq r1 r2) = groups r1 @ groups r2"
| "groups (Star r) = groups r"
| "groups (Plus r) = groups r"
| "groups (Opt r) = groups r"
| "groups (Grp n r) = n # groups r"

definition pad :: "regex \<Rightarrow> nat \<Rightarrow> thread \<Rightarrow> int list" where
  "pad r a t =
     int a # int (fst t) #
     concat (map (\<lambda>g. case snd t g of None \<Rightarrow> [- 1, - 1] | Some (b, e) \<Rightarrow> [int b, int e])
                 (groups r))"

text \<open>The leftmost match among the candidate start positions, first thread of the search.\<close>

fun firstMatch :: "regex \<Rightarrow> string \<Rightarrow> nat list \<Rightarrow> (nat \<times> thread) option" where
  "firstMatch r s [] = None"
| "firstMatch r s (i # is) =
     (case run r s (i, Map.empty) of [] \<Rightarrow> firstMatch r s is | t # ts \<Rightarrow> Some (i, t))"

text \<open>
  The loop of \<^verbatim>\<open>FindAll\<close>: search again from the end of the previous match; after an
  empty match move one position on, and drop an empty match that abuts the previous match.
  The position grows in every round and a round needs \<open>pos \<le> length s\<close>, so
  \<open>Suc (length s)\<close> rounds always suffice.
\<close>

fun allMatches :: "regex \<Rightarrow> string \<Rightarrow> nat \<Rightarrow> nat \<Rightarrow> nat option \<Rightarrow> int list list" where
  "allMatches r s 0 pos prevMatchEnd = []"
| "allMatches r s (Suc n) pos prevMatchEnd =
     (case firstMatch r s [pos..<Suc (length s)] of
        None \<Rightarrow> []
      | Some (a, t) \<Rightarrow>
          if fst t = pos then
            (if Some a = prevMatchEnd then [] else [pad r a t]) @
            allMatches r s n (Suc pos) (Some (fst t))
          else pad r a t # allMatches r s n (fst t) (Some (fst t)))"

definition FindAllStringSubmatchIndex :: "regex \<Rightarrow> string \<Rightarrow> int list list" where
  "FindAllStringSubmatchIndex r s = allMatches r s (Suc (length s)) 0 None"

subsection \<open>What the pattern matches, read off directly\<close>

text \<open>
  A combo group at position \<open>i\<close>: an opening brace, a non-empty run of characters other
  than the closing brace, the closing brace, then greedily a plus sign with a non-empty run of
  key characters, then greedily one separator. These functions are shown below to compute
  exactly what the pattern yields under the search above.
\<close>

definition keyChar :: "char \<Rightarrow> bool" where
  "keyChar = inClass False [(CHR ''A'', CHR ''Z''), (CHR ''a'', CHR ''z''), (CHR ''1'', CHR ''9'')]"

definition sepChar :: "char \<Rightarrow> bool" where
  "sepChar = inClass False [(CHR '' '', CHR '' ''), (CHR '';'', CHR '';'')]"

definition groupAt :: "string \<Rightarrow> nat \<Rightarrow> int list option" where
  "groupAt s i =
     (if i < length s \<and> s ! i = CHR ''{'' then
        (let j = Suc i + length (takeWhile (\<lambda>c. c \<noteq> CHR ''}'') (drop (Suc i) s)) in
         if Suc i < j \<and> j < length s then
           (let k = length (takeWhile keyChar (drop (j + 2) s));
                hasKey = (Suc j < length s \<and> s ! Suc j = CHR ''+'' \<and> 0 < k);
                e = (if hasKey then j + 2 + k else Suc j);
                e' = (if e < length s \<and> sepChar (s ! e) then Suc e else e)
            in Some [int i, int e', int (Suc i), int j,
                     if hasKey then int (j + 2) else - 1,
                     if hasKey then int (j + 2 + k) else - 1])
         else None)
      else None)"

fun firstGroup :: "string \<Rightarrow> nat list \<Rightarrow> int list option" where
  "firstGroup s [] = None"
| "firstGroup s (i # is) = (case groupAt s i of None \<Rightarrow> firstGroup s is | Some m \<Rightarrow> Some m)"

fun scanGroups :: "string \<Rightarrow> nat \<Rightarrow> nat \<Rightarrow> int list list" where
  "scanGroups s 0 pos = []"
| "scanGroups s (Suc n) pos =
     (case firstGroup s [pos..<Suc (length s)] of
        None \<Rightarrow> []
      | Some m \<Rightarrow> m # scanGroups s n (nat (m ! 1)))"

definition inB :: "string \<Rightarrow> nat \<Rightarrow> nat \<Rightarrow> bool" where
  "inB s p q \<longleftrightarrow> p \<le> q \<and> (\<forall>i. p \<le> i \<and> i < q \<longrightarrow> i < length s \<and> s ! i \<noteq> CHR ''}'')"

section \<open>Key-event synthesis\<close>

text \<open>
  The synthesizer acts on the input injector (\<^verbatim>\<open>robotgo.TypeStr\<close>, \<^verbatim>\<open>robotgo.KeyTap\<close>) and
  on the log. Its result is the ordered trace of these actions, together with the run-time
  panic that stopped it, if any: the actions before a panic have already happened. In the
  words of the specification \<open>TypeStr\<close> is a \<open>TypeLiteral\<close> operation and
  \<open>KeyTap key modifiers\<close> a \<open>PressCombo\<close>. Diagnostic prints to standard error and the
  fixed delays are not part of the trace.
\<close>

datatype error = SliceBounds int int | IndexOutOfRange

datatype event = TypeStr string | KeyTap string "string list" | LogUnknownModifier string

text \<open>\<^verbatim>\<open>text[lo:hi]\<close> panics unless \<open>0 \<le> lo \<le> hi \<le> len(text)\<close>.\<close>

definition slice :: "string \<Rightarrow> int \<Rightarrow> int \<Rightarrow> error + string" where
  "slice text lo hi =
     (if 0 \<le> lo \<and> lo \<le> hi \<and> hi \<le> int (length text)
      then Inr (take (nat (hi - lo)) (drop (nat lo) text))
      else Inl (SliceBounds lo hi))"

text \<open>\<^verbatim>\<open>strings.Split\<close> for a one-character separator: never empty, \<open>[[]]\<close> for \<open>[]\<close>.\<close>

fun Split :: "string \<Rightarrow> char \<Rightarrow> string list" where
  "Split [] sep = [[]]"
| "Split (c # cs) sep =
     (if c = sep then [] # Split cs sep
      else (case Split cs sep of [] \<Rightarrow> [[c]] | w # ws \<Rightarrow> (c # w) # ws))"

definition modifierMap :: "string \<rightharpoonup> string" where
  "modifierMap = map_of
     [(''Command'', ''command''),
      (''Shift'', ''shift''),
      (''Option'', ''alt''),
      (''Control'', ''ctrl''),
      (''Tab'', ''tab''),
      (''Enter'', ''enter'')]"

definition keyTapWithModifiers :: "string list \<Rightarrow> string \<Rightarrow> event list" where
  "keyTapWithModifiers modifiers key = [KeyTap key modifiers, KeyTap ''shift'' []]"

text \<open>
  The loop over \<^verbatim>\<open>modifierKeys\<close>: an unknown name is logged and skipped, a known one
  appends its table entry.
\<close>

fun modifierLoop :: "string list \<Rightarrow> event list \<times> string list \<Rightarrow> event list \<times> string list" where
  "modifierLoop [] (logged, modifiers) = (logged, modifiers)"
| "modifierLoop (modifier # rest) (logged, modifiers) =
     (case modifierMap modifier of
        None \<Rightarrow> modifierLoop rest (logged @ [LogUnknownModifier modifier], modifiers)
      | Some modifierKey \<Rightarrow> modifierLoop rest (logged, modifiers @ [modifierKey]))"

text \<open>
  A lookup of a missing key in a Go map yields the zero value, the empty string. The result
  is the log written, and either a panic or the pair \<open>(modifiers, key)\<close>. An entry
  of the index array is read where the code reads it: \<open>match[2]\<close> and
  \<open>match[3]\<close> before the first slice, \<open>match[4]\<close> after it, and
  \<open>match[5]\<close> only when \<open>match[4]\<close> is not \<open>-1\<close>.
\<close>

definition extractModifiersAndKeyFromMatch ::
    "string \<Rightarrow> int list \<Rightarrow> event list \<times> (error + string list \<times> string)" where
  "extractModifiersAndKeyFromMatch text match =
     (if length match < 4 then ([], Inl IndexOutOfRange)
      else case slice text (match ! 2) (match ! 3) of
        Inl e \<Rightarrow> ([], Inl e)
      | Inr inside \<Rightarrow>
          (let modifierKeys = Split inside CHR ''+'' in
           if length match < 5 then ([], Inl IndexOutOfRange)
           else if match ! 4 \<noteq> - 1 then
             (if length match < 6 then ([], Inl IndexOutOfRange)
              else case slice text (match ! 4) (match ! 5) of
                Inl e \<Rightarrow> ([], Inl e)
              | Inr key \<Rightarrow>
                  (case modifierLoop modifierKeys ([], []) of
                     (logged, modifiers) \<Rightarrow> (logged, Inr (modifiers, key))))
           else if modifierKeys = [] then ([], Inl IndexOutOfRange)
           else
             (let key = (case modifierMap (last modifierKeys) of None \<Rightarrow> [] | Some k \<Rightarrow> k) in
              case modifierLoop (butlast modifierKeys) ([], []) of
                (logged, modifiers) \<Rightarrow> (logged, Inr (modifiers, key)))))"

text \<open>
  To state what the loop over the names yields: the names the table lacks, and the table
  entries of the names it has, both in the order of the names.
\<close>

definition unknownNames :: "string list \<Rightarrow> string list" where
  "unknownNames names = filter (\<lambda>n. modifierMap n = None) names"

definition knownKeys :: "string list \<Rightarrow> string list" where
  "knownKeys names = map (the \<circ> modifierMap) (filter (\<lambda>n. modifierMap n \<noteq> None) names)"

text \<open>
  The loop of \<^verbatim>\<open>simulateTyping\<close> over the matches, with \<^verbatim>\<open>lastIndex\<close> as its state, and
  the remainder typed after the last match.
\<close>

fun typingLoop :: "string \<Rightarrow> int \<Rightarrow> int list list \<Rightarrow> event list \<times> error option" where
  "typingLoop text lastIndex [] =
     (if lastIndex < int (length text) then
        (case slice text lastIndex (int (length text)) of
           Inl e \<Rightarrow> ([], Some e)
         | Inr rest \<Rightarrow> ([TypeStr rest], None))
      else ([], None))"
| "typingLoop text lastIndex (match # matches) =
     (if length match < 1 then ([], Some IndexOutOfRange)
      else case (if lastIndex \<noteq> match ! 0
                 then map_sum id (\<lambda>lit. [TypeStr lit]) (slice text lastIndex (match ! 0))
                 else Inr []) of
        Inl e \<Rightarrow> ([], Some e)
      | Inr typed \<Rightarrow>
          if length match < 2 then (typed, Some IndexOutOfRange)
          else
            (case extractModifiersAndKeyFromMatch text match of
               (logged, Inl e) \<Rightarrow> (typed @ logged, Some e)
             | (logged, Inr (modifiers, key)) \<Rightarrow>
                 (case typingLoop text (match ! 1 + 1) matches of
                    (later, r) \<Rightarrow>
                      (typed @ logged @ keyTapWithModifiers modifiers key @ later, r))))"

definition simulateTyping :: "string \<Rightarrow> event list \<times> error option" where
  "simulateTyping text = typingLoop text 0 (FindAllStringSubmatchIndex keyTapPattern text)"

text \<open>
  To state which matches the loop gets to: in a list of matches no match starts at the index
  where the match before it ends.
\<close>

fun separated :: "int list list \<Rightarrow> bool" where
  "separated (a # b # ms) = (a ! 1 < b ! 0 \<and> separated (b # ms))"
| "separated ms = True"

section \<open>Command dispatch: the messages sent to the language model\<close>

record FewShotExample =
  Input :: string
  Output :: string

record ProgramFewShotExamples =
  Program :: string
  Examples :: "FewShotExample list"

record RightHandConfig =
  LLMModel :: string
  WhisperModel :: string
  Programs :: "ProgramFewShotExamples list"
  DumpWAVFile :: bool

datatype ChatMessage = SystemChatMessage string | HumanChatMessage string | AIChatMessage string

definition defaultConfig :: RightHandConfig where
  "defaultConfig = \<lparr>
     LLMModel = ''gpt-4'',
     WhisperModel = ''base.en'',
     Programs =
       [\<lparr>Program = ''iTerm2'',
         Examples =
           [\<lparr>Input = ''change to my home directory'', Output = ''cd ~''\<rparr>,
            \<lparr>Input = ''new tab'', Output = ''{Command}+t''\<rparr>,
            \<lparr>Input = ''Interactively rebase the last 3 commits'', Output = ''git rebase -i HEAD~3''\<rparr>,
            \<lparr>Input = ''split horizontally'', Output = ''{Command+Shift}+d''\<rparr>]\<rparr>,
        \<lparr>Program = ''Google Chrome'',
         Examples =
           [\<lparr>Input = ''Visit CNN.com and a new tab.'',
             Output = ''{Command}+t\<newline>https://cnn.com{Enter}''\<rparr>]\<rparr>],
     DumpWAVFile = False\<rparr>"

text \<open>
  \<^verbatim>\<open>fmt.Sprintf(systemPrompt, activeApp)\<close>: the prompt has one verb, which is replaced by
  the name of the active application.
\<close>

definition systemPromptHead :: string where
  "systemPromptHead =
     ''You are an AI assistant that interprets transcribed voice input\<newline>'' @
     ''and translates it into commands or text inputs for various applications. \<newline>'' @
     ''\<newline>'' @
     ''Your current active program is ''"

definition systemPromptTail :: string where
  "systemPromptTail =
     ''. Adjust your interpretation based on this context.\<newline>'' @
     ''\<newline>'' @
     ''When interpreting commands, please indicate modifier keys such as Command, Option, Shift, \<newline>'' @
     ''or Control using curly braces. For instance, use '' @ [CHR 0x27] @ ''{Command}+t'' @ [CHR 0x27] @
     '' for opening a new tab.\<newline>'' @
     ''\<newline>'' @
     ''When outputting a command with a modifier key, use Shift as a modifier instead of including an uppercase character.\<newline>'' @
     ''\<newline>'' @
     ''Your output will be used as keyboard input for the active application.\<newline>'' @
     ''Return the input exactly as provided if you aren'' @ [CHR 0x27] @ ''t confident in your answer.''"

definition systemPrompt :: "string \<Rightarrow> string" where
  "systemPrompt activeApp = systemPromptHead @ activeApp @ systemPromptTail"

fun exampleLoop :: "FewShotExample list \<Rightarrow> ChatMessage list \<Rightarrow> ChatMessage list" where
  "exampleLoop [] messages = messages"
| "exampleLoop (example # rest) messages =
     exampleLoop rest (messages @ [HumanChatMessage (Input example), AIChatMessage (Output example)])"

fun programLoop ::
    "ProgramFewShotExamples list \<Rightarrow> string \<Rightarrow> ChatMessage list \<times> nat \<Rightarrow> ChatMessage list \<times> nat" where
  "programLoop [] activeApp (messages, nExamples) = (messages, nExamples)"
| "programLoop (prog # rest) activeApp (messages, nExamples) =
     (if Program prog \<noteq> activeApp then programLoop rest activeApp (messages, nExamples)
      else programLoop rest activeApp (exampleLoop (Examples prog) messages, length (Examples prog)))"

text \<open>
  \<^verbatim>\<open>handleText\<close>: the language model is a parameter; the result is the message sequence
  it was called with and, unless the call failed, the outcome of typing its answer.
\<close>

definition handleText ::
    "RightHandConfig \<Rightarrow> (ChatMessage list \<Rightarrow> string option) \<Rightarrow> string \<Rightarrow> string
       \<Rightarrow> ChatMessage list \<times> (event list \<times> error option) option" where
  "handleText cfg llm activeApp text =
     (let messages =
            fst (programLoop (Programs cfg) activeApp
                             ([SystemChatMessage (systemPrompt activeApp)], 0))
              @ [HumanChatMessage text]
      in case llm messages of
           None \<Rightarrow> (messages, None)
         | Some llmText \<Rightarrow> (messages, Some (simulateTyping llmText)))"

section \<open>The listening loop\<close>

text \<open>
  \<^verbatim>\<open>runMainLoop\<close> keeps three variables and reads the toggle channel, which holds at most
  one signal. A value of \<^verbatim>\<open>listeningTimeout\<close> is the nil channel, the channel of a timer
  that delivers once the clock has reached its deadline, or that channel after its one value
  has been received. Time is a clock reading in nanoseconds, handed to every round of the
  loop. The calls made on the audio source, the transcriber and the dispatcher are recorded
  in order; printing, logging and the optional dump of the samples are left out.
\<close>

datatype timerChan = NilChan | Armed nat | Drained

datatype 'a call = Start | Stop | Transcribe "'a list" | HandleText string

record 'a loopState =
  listening :: bool
  listeningTimeout :: timerChan
  audioBuffer :: "'a list"
  listeningToggle :: nat
  ctxDone :: bool
  calls :: "'a call list"

definition Second :: nat where
  "Second = 1000000000"

definition DefaultTimeout :: nat where
  "DefaultTimeout = 30 * Second"

definition initial :: "'a loopState" where
  "initial = \<lparr>listening = False, listeningTimeout = NilChan, audioBuffer = [],
              listeningToggle = 0, ctxDone = False, calls = []\<rparr>"

text \<open>
  One round of the \<^verbatim>\<open>select\<close>. The case taken comes with what the collaborators answer
  in it: the transcription (\<open>None\<close> for an error) in the toggle case, the collected
  samples (\<open>None\<close> for an error) in the default case. A case can be taken only when its
  channel is ready, the default case only when no channel is.
\<close>

datatype 'a selected = RecvToggle "string option" | RecvTimeout | RecvDone | Default "'a list option"

datatype 'a outcome = Continue "'a loopState" | Returned | Blocked | NotReady

definition timeoutReady :: "nat \<Rightarrow> 'a loopState \<Rightarrow> bool" where
  "timeoutReady now s = (case listeningTimeout s of Armed deadline \<Rightarrow> deadline \<le> now | _ \<Rightarrow> False)"

fun mainLoopRound :: "nat \<Rightarrow> 'a selected \<Rightarrow> 'a loopState \<Rightarrow> 'a outcome" where
  "mainLoopRound now (RecvToggle transcript) s =
     (if listeningToggle s = 0 then NotReady
      else if \<not> listening s then
        Continue (s\<lparr>listeningToggle := listeningToggle s - 1,
                    listening := True,
                    listeningTimeout := Armed (now + DefaultTimeout),
                    audioBuffer := [],
                    calls := calls s @ [Start]\<rparr>)
      else
        Continue (s\<lparr>listeningToggle := listeningToggle s - 1,
                    listening := False,
                    calls := calls s @ [Stop, Transcribe (audioBuffer s)] @
                      (case transcript of
                         None \<Rightarrow> []
                       | Some text \<Rightarrow> if text \<noteq> [] then [HandleText text] else [])\<rparr>))"
| "mainLoopRound now RecvTimeout s =
     (if \<not> timeoutReady now s then NotReady
      else if listening s then
        (if listeningToggle s < 1
         then Continue (s\<lparr>listeningTimeout := Drained, listeningToggle := Suc (listeningToggle s)\<rparr>)
         else Blocked)
      else Continue (s\<lparr>listeningTimeout := Drained\<rparr>))"
| "mainLoopRound now RecvDone s = (if ctxDone s then Returned else NotReady)"
| "mainLoopRound now (Default collected) s =
     (if 0 < listeningToggle s \<or> timeoutReady now s \<or> ctxDone s then NotReady
      else if \<not> listening s then Continue s
      else case collected of
             None \<Rightarrow> Continue s
           | Some buf \<Rightarrow> Continue (s\<lparr>audioBuffer := audioBuffer s @ buf\<rparr>))"

text \<open>
  What happens around the loop: the hotkey monitor puts a signal into the toggle channel
  (possible when the channel has room), the context is cancelled, or the loop makes a round
  at some clock reading.
\<close>

datatype 'a signal = Hotkey | Cancel | Round nat "'a selected"

fun step :: "'a signal \<Rightarrow> 'a loopState \<Rightarrow> 'a outcome" where
  "step Hotkey s =
     (if listeningToggle s < 1 then Continue (s\<lparr>listeningToggle := Suc (listeningToggle s)\<rparr>)
      else NotReady)"
| "step Cancel s = Continue (s\<lparr>ctxDone := True\<rparr>)"
| "step (Round now c) s = mainLoopRound now c s"

text \<open>
  A run of steps ends with the outcome of the first step that does not continue: a case that
  was not ready (such a run is no behaviour of the loop), a return, or a send that blocks.
\<close>

fun exec :: "'a signal list \<Rightarrow> 'a loopState \<Rightarrow> 'a outcome" where
  "exec [] s = Continue s"
| "exec (e # es) s =
     (case step e s of
        Continue s' \<Rightarrow> exec es s'
      | Returned \<Rightarrow> Returned
      | Blocked \<Rightarrow> Blocked
      | NotReady \<Rightarrow> NotReady)"

text \<open>The number of transitions from Listening to Idle along a run.\<close>

fun stops :: "'a signal list \<Rightarrow> 'a loopState \<Rightarrow> nat" where
  "stops [] s = 0"
| "stops (e # es) s =
     (case step e s of
        Continue s' \<Rightarrow> (if listening s \<and> \<not> listening s' then 1 else 0) + stops es s'
      | _ \<Rightarrow> 0)"

section \<open>The pattern under the search discipline\<close>

lemma of_char_between: "(of_char a :: nat) \<le> of_char c \<and> (of_char c :: nat) \<le> of_char a \<longleftrightarrow> c = a"
  by (auto dest: antisym)

lemma notBrace_iff: "inClass True [(CHR ''}'', CHR ''}'')] c \<longleftrightarrow> c \<noteq> CHR ''}''"
  unfolding inClass_def by (simp only: list_ex_Cons_iff list_ex_Nil_iff prod.case of_char_between) simp

lemma tw_drop:
  "length (takeWhile P (drop q s)) =
     (if q < length s \<and> P (s ! q) then Suc (length (takeWhile P (drop (Suc q) s))) else 0)"
proof (cases "q < length s")
  case True
  then have "drop q s = s ! q # drop (Suc q) s" by (simp add: Cons_nth_drop_Suc)
  then show ?thesis using True by simp
next
  case False
  then show ?thesis by simp
qed

lemma rev_upt_shift: "map (\<lambda>j. f (Suc j)) (rev [0..<Suc m]) @ [f 0] = map f (rev [0..<Suc (Suc m)])"
proof -
  have "[0..<Suc (Suc m)] = 0 # map Suc [0..<Suc m]"
    by (simp only: map_Suc_upt upt_conv_Cons [of 0 "Suc (Suc m)"])
  then show ?thesis
    by (simp only: rev.simps rev_map list.map map_append map_map comp_def)
qed

lemma star_step:
  assumes f: "\<And>t. f t = (if fst t < length s \<and> P (s ! fst t) then [(Suc (fst t), snd t)] else [])"
  shows "star f k (q, c) =
     map (\<lambda>j. (q + j, c)) (rev [0..<Suc (min k (length (takeWhile P (drop q s))))])"
proof (induction k arbitrary: q)
  case 0
  then show ?case by simp
next
  case (Suc k)
  show ?case
  proof (cases "q < length s \<and> P (s ! q)")
    case True
    let ?m = "length (takeWhile P (drop (Suc q) s))"
    have m: "length (takeWhile P (drop q s)) = Suc ?m"
      using True tw_drop [of P q s] by simp
    have "star f (Suc k) (q, c) = star f k (Suc q, c) @ [(q, c)]"
      using True by (simp add: f)
    also have "\<dots> = map (\<lambda>j. (q + Suc j, c)) (rev [0..<Suc (min k ?m)]) @ [(q + 0, c)]"
      by (simp add: Suc.IH)
    also have "\<dots> = map (\<lambda>j. (q + j, c)) (rev [0..<Suc (Suc (min k ?m))])"
      by (rule rev_upt_shift)
    finally show ?thesis by (simp add: m)
  next
    case False
    then have "length (takeWhile P (drop q s)) = 0"
      using tw_drop [of P q s] by auto
    then show ?thesis using False by (auto simp: f)
  qed
qed

lemma plus_cls:
  "run (Plus (Cls n rs)) s (q, c) =
     map (\<lambda>j. (q + j, c)) (rev [1..<Suc (length (takeWhile (inClass n rs) (drop q s)))])"
proof (cases "q < length s \<and> inClass n rs (s ! q)")
  case True
  let ?m = "length (takeWhile (inClass n rs) (drop (Suc q) s))"
  have m: "length (takeWhile (inClass n rs) (drop q s)) = Suc ?m"
    using True tw_drop [of "inClass n rs" q s] by simp
  have "?m \<le> length (drop (Suc q) s)" by (rule length_takeWhile_le)
  then have mn: "min (length s - Suc q) ?m = ?m" by simp
  have "run (Plus (Cls n rs)) s (q, c) = star (run (Cls n rs) s) (length s - Suc q) (Suc q, c)"
    using True by simp
  also have "\<dots> = map (\<lambda>j. (Suc q + j, c)) (rev [0..<Suc ?m])"
    using star_step [of "run (Cls n rs) s" s "inClass n rs" "length s - Suc q" "Suc q" c]
    by (simp only: mn run.simps(2) if_True simp_thms)
  also have "\<dots> = map (\<lambda>j. (q + j, c)) (rev [1..<Suc (Suc ?m)])"
    by (simp only: map_Suc_upt [symmetric] One_nat_def rev_map) (simp add: comp_def)
  finally show ?thesis by (simp only: m)
next
  case False
  then have "length (takeWhile (inClass n rs) (drop q s)) = 0"
    using tw_drop [of "inClass n rs" q s] by auto
  then show ?thesis using False by auto
qed


lemma notBrace_fun: "inClass True [(CHR ''}'', CHR ''}'')] = (\<lambda>c. c \<noteq> CHR ''}'')"
  by (rule ext) (rule notBrace_iff)

lemma plus_notBrace:
  "run (Plus notBrace) s (q, c) =
     map (\<lambda>j. (q + j, c)) (rev [1..<Suc (length (takeWhile (\<lambda>c. c \<noteq> CHR ''}'') (drop q s)))])"
  unfolding notBrace_def by (simp only: plus_cls notBrace_fun)

lemma tw_inB: "inB s q (q + length (takeWhile (\<lambda>c. c \<noteq> CHR ''}'') (drop q s)))"
proof -
  let ?P = "\<lambda>c. c \<noteq> CHR ''}''"
  let ?tw = "takeWhile ?P (drop q s)"
  have "i < length s \<and> s ! i \<noteq> CHR ''}''" if "q \<le> i" "i < q + length ?tw" for i
  proof -
    have lt: "i - q < length ?tw" using that by simp
    have le: "length ?tw \<le> length (drop q s)" by (rule length_takeWhile_le)
    have "?tw ! (i - q) \<in> set ?tw" using lt by (rule nth_mem)
    then have "?P (?tw ! (i - q))" by (rule set_takeWhileD [THEN conjunct2])
    moreover have "?tw ! (i - q) = drop q s ! (i - q)" using lt by (rule takeWhile_nth)
    moreover have "i < length s" using lt le that by simp
    ultimately show ?thesis using that by simp
  qed
  then show ?thesis by (simp add: inB_def)
qed

lemma inB_mono: "inB s p q \<Longrightarrow> p \<le> q' \<Longrightarrow> q' \<le> q \<Longrightarrow> inB s p q'"
  by (auto simp: inB_def)

lemma inB_trans: "inB s p q \<Longrightarrow> inB s q r \<Longrightarrow> inB s p r"
  unfolding inB_def by (metis le_trans not_le_imp_less)

lemma inB_step: "inB s p q \<Longrightarrow> q < length s \<Longrightarrow> s ! q \<noteq> CHR ''}'' \<Longrightarrow> inB s p (Suc q)"
  unfolding inB_def by (metis le_Suc_eq less_Suc_eq)

lemma inB_end:
  assumes "inB s p e" "e < length s" "s ! e = CHR ''}''"
  shows "e = p + length (takeWhile (\<lambda>c. c \<noteq> CHR ''}'') (drop p s))"
proof -
  let ?P = "\<lambda>c. c \<noteq> CHR ''}''"
  have pe: "p \<le> e" using assms(1) by (simp add: inB_def)
  have "takeWhile ?P (drop p s) = take (e - p) (drop p s)"
  proof (rule takeWhile_eq_take_P_nth)
    fix i assume "i < e - p" "i < length (drop p s)"
    then show "drop p s ! i \<noteq> CHR ''}''" using assms(1) by (simp add: inB_def)
  next
    assume "e - p < length (drop p s)"
    then show "\<not> drop p s ! (e - p) \<noteq> CHR ''}''" using assms(3) pe by simp
  qed
  then show ?thesis using pe assms(2) by simp
qed

declare run.simps [simp del]

lemma inB_refl: "inB s q q"
  by (auto simp: inB_def)

lemma inB_le: "inB s p q \<Longrightarrow> p \<le> q"
  by (simp add: inB_def)

lemma star_self: "t \<in> set (star f k t)"
  by (cases k) simp_all

lemma run_plusNB_inB:
  assumes "t' \<in> set (run (Plus notBrace) s (q, c))"
  shows "snd t' = c \<and> q < fst t' \<and> inB s q (fst t')"
proof -
  let ?n = "length (takeWhile (\<lambda>c. c \<noteq> CHR ''}'') (drop q s))"
  from assms have "t' \<in> (\<lambda>j. (q + j, c)) ` {1..<Suc ?n}"
    by (simp only: plus_notBrace set_map set_rev set_upt)
  then obtain j where j: "1 \<le> j" "j \<le> ?n" "t' = (q + j, c)" by auto
  have "inB s q (q + j)" using tw_inB [of s q] j by (auto intro: inB_mono)
  then show ?thesis using j by simp
qed

lemma run_modifierPlus_inB:
  assumes "t' \<in> set (run (Seq (Plus notBrace) (Chr CHR ''+'')) s (q, c))"
  shows "snd t' = c \<and> q < fst t' \<and> inB s q (fst t')"
proof -
  from assms obtain u where u: "u \<in> set (run (Plus notBrace) s (q, c))"
    and t': "t' \<in> set (run (Chr CHR ''+'') s u)" by (auto simp: run.simps(3))
  from run_plusNB_inB [OF u] have a: "snd u = c" "q < fst u" "inB s q (fst u)" by simp_all
  from t' have b: "fst u < length s" "s ! fst u = CHR ''+''" "t' = (Suc (fst u), snd u)"
    by (auto simp: run.simps(1) split: if_splits)
  have "inB s q (Suc (fst u))" using a(3) b(1,2) by (intro inB_step) simp_all
  then show ?thesis using a b by simp
qed

lemma star_modifier_inB:
  "t' \<in> set (star (run (Seq (Plus notBrace) (Chr CHR ''+'')) s) k (q, c)) \<Longrightarrow>
     snd t' = c \<and> inB s q (fst t')"
proof (induction k arbitrary: q)
  case 0
  then show ?case by (simp add: inB_refl)
next
  case (Suc k)
  let ?f = "run (Seq (Plus notBrace) (Chr CHR ''+'')) s"
  from Suc.prems consider "t' = (q, c)"
    | u where "u \<in> set (?f (q, c))" "q < fst u" "t' \<in> set (star ?f k u)"
    by (auto split: if_splits)
  then show ?case
  proof cases
    case 1
    then show ?thesis by (simp add: inB_refl)
  next
    case 2
    from run_modifierPlus_inB [OF 2(1)] have u: "snd u = c" "inB s q (fst u)" by simp_all
    from 2(3) u(1) have "t' \<in> set (star ?f k (fst u, c))" by (metis prod.collapse)
    from Suc.IH [OF this] have "snd t' = c" "inB s (fst u) (fst t')" by simp_all
    with u(2) show ?thesis by (auto intro: inB_trans)
  qed
qed

lemma run_body_inB:
  assumes "t' \<in> set (run (Seq (Star (Seq (Plus notBrace) (Chr CHR ''+''))) (Plus notBrace)) s (p, c))"
  shows "snd t' = c \<and> p < fst t' \<and> inB s p (fst t')"
proof -
  let ?f = "run (Seq (Plus notBrace) (Chr CHR ''+'')) s"
  from assms obtain u where u: "u \<in> set (star ?f (length s - p) (p, c))"
    and t': "t' \<in> set (run (Plus notBrace) s u)"
    by (auto simp: run.simps(3) [of "Star _"] run.simps(4))
  from star_modifier_inB [OF u] have a: "snd u = c" "inB s p (fst u)" by simp_all
  from t' a(1) have "t' \<in> set (run (Plus notBrace) s (fst u, c))" by (metis prod.collapse)
  from run_plusNB_inB [OF this] have b: "snd t' = c" "fst u < fst t'" "inB s (fst u) (fst t')"
    by simp_all
  have "inB s p (fst t')" using a(2) b(3) by (rule inB_trans)
  moreover have "p < fst t'" using inB_le [OF a(2)] b(2) by simp
  ultimately show ?thesis using b(1) by simp
qed

lemma run_body_end:
  assumes "0 < length (takeWhile (\<lambda>c. c \<noteq> CHR ''}'') (drop p s))"
  shows "(p + length (takeWhile (\<lambda>c. c \<noteq> CHR ''}'') (drop p s)), c)
           \<in> set (run (Seq (Star (Seq (Plus notBrace) (Chr CHR ''+''))) (Plus notBrace)) s (p, c))"
proof -
  let ?f = "run (Seq (Plus notBrace) (Chr CHR ''+'')) s"
  let ?n = "length (takeWhile (\<lambda>c. c \<noteq> CHR ''}'') (drop p s))"
  have "(p, c) \<in> set (run (Star (Seq (Plus notBrace) (Chr CHR ''+''))) s (p, c))"
    by (simp only: run.simps(4) fst_conv star_self)
  moreover have "?n \<in> {1..<Suc ?n}" using assms by (simp del: length_greater_0_conv add: Suc_le_eq)
  then have "(p + ?n, c) \<in> set (run (Plus notBrace) s (p, c))"
    by (simp only: plus_notBrace set_map set_rev set_upt) (rule imageI)
  ultimately show ?thesis
    by (simp only: run.simps(3) set_concat set_map) blast
qed


lemma hd_concat_map: "xs \<noteq> [] \<Longrightarrow> f (hd xs) \<noteq> [] \<Longrightarrow> hd (concat (map f xs)) = hd (f (hd xs))"
  by (cases xs) simp_all

lemma concat_only_empty:
  "\<forall>x\<in>set xs. x = a \<or> f x = [] \<Longrightarrow> a \<notin> set xs \<or> f a = [] \<Longrightarrow> concat (map f xs) = []"
  by (induction xs) auto

lemma concat_only_hd:
  "\<forall>x\<in>set xs. x = a \<or> f x = [] \<Longrightarrow> a \<in> set xs \<Longrightarrow> f a \<noteq> [] \<Longrightarrow>
     concat (map f xs) \<noteq> [] \<and> hd (concat (map f xs)) = hd (f a)"
  by (induction xs) auto

lemma run_keySuffix:
  "run keySuffix s (e, c) \<noteq> [] \<and>
   hd (run keySuffix s (e, c)) =
     (if e < length s \<and> s ! e = CHR ''+'' \<and> 0 < length (takeWhile keyChar (drop (Suc e) s))
      then (Suc e + length (takeWhile keyChar (drop (Suc e) s)),
            c(2 \<mapsto> (Suc e, Suc e + length (takeWhile keyChar (drop (Suc e) s)))))
      else (e, c))"
proof -
  let ?k = "length (takeWhile keyChar (drop (Suc e) s))"
  have plus: "run (Plus keyClass) s (Suc e, c) = map (\<lambda>j. (Suc e + j, c)) (rev [1..<Suc ?k])"
    unfolding keyClass_def keyChar_def by (rule plus_cls)
  show ?thesis
  proof (cases "e < length s \<and> s ! e = CHR ''+''")
    case True
    then have "run keySuffix s (e, c) =
        map (\<lambda>t'. (fst t', (snd t')(2 \<mapsto> (Suc e, fst t')))) (run (Plus keyClass) s (Suc e, c)) @ [(e, c)]"
      by (simp add: keySuffix_def run.simps(6) run.simps(3) run.simps(1) run.simps(7))
    then show ?thesis using True by (cases ?k) (simp_all add: plus)
  next
    case False
    then have "run keySuffix s (e, c) = [(e, c)]"
      by (auto simp: keySuffix_def run.simps(6) run.simps(3) run.simps(1))
    then show ?thesis using False by auto
  qed
qed

lemma run_separator:
  "run separator s (e, c) = (if e < length s \<and> sepChar (s ! e) then [(Suc e, c), (e, c)] else [(e, c)])"
  by (simp add: separator_def sepChar_def run.simps(6) run.simps(2))

lemma run_tail:
  "run (Seq keySuffix separator) s t \<noteq> [] \<and>
   hd (run (Seq keySuffix separator) s t) = hd (run separator s (hd (run keySuffix s t)))"
proof -
  obtain e c where t: "t = (e, c)" by (cases t)
  have a: "run keySuffix s t \<noteq> []" using run_keySuffix [of s e c] t by simp
  have b: "run separator s u \<noteq> []" for u by (cases u) (simp add: run_separator)
  have "hd (concat (map (run separator s) (run keySuffix s t))) =
        hd (run separator s (hd (run keySuffix s t)))"
    using a b by (rule hd_concat_map)
  moreover have "concat (map (run separator s) (run keySuffix s t)) \<noteq> []"
    using a b by (cases "run keySuffix s t") simp_all
  ultimately show ?thesis by (simp add: run.simps(3))
qed

lemma groups_keyTapPattern: "groups keyTapPattern = [1, 2]"
  by (simp add: keyTapPattern_def modifierGroup_def keySuffix_def separator_def notBrace_def
      keyClass_def)

lemma keyTap_at:
  "(case run keyTapPattern s (i, Map.empty) of [] \<Rightarrow> None | t # ts \<Rightarrow> Some (pad keyTapPattern i t))
     = groupAt s i"
proof (cases "i < length s \<and> s ! i = CHR ''{''")
  case False
  then have "run keyTapPattern s (i, Map.empty) = []"
    by (auto simp: keyTapPattern_def run.simps(3) [of "Chr _"] run.simps(1))
  then show ?thesis using False by (auto simp: groupAt_def)
next
  case True
  let ?P = "\<lambda>c. c \<noteq> CHR ''}''"
  let ?n = "length (takeWhile ?P (drop (Suc i) s))"
  let ?j = "Suc i + ?n"
  let ?body = "Seq (Star (Seq (Plus notBrace) (Chr CHR ''+''))) (Plus notBrace)"
  let ?R = "run ?body s (Suc i, Map.empty)"
  let ?G = "\<lambda>t'. (fst t', (snd t')(1 \<mapsto> (Suc i, fst t')))"
  let ?F = "run (Seq (Chr CHR ''}'') (Seq keySuffix separator)) s"
  let ?a = "(?j, [1 \<mapsto> (Suc i, ?j)])"
  have F: "?F u = (if fst u < length s \<and> s ! fst u = CHR ''}''
                    then run (Seq keySuffix separator) s (Suc (fst u), snd u) else [])" for u
    by (auto simp: run.simps(3) [of "Chr _"] run.simps(1))
  have "run keyTapPattern s (i, Map.empty) =
          run (Seq modifierGroup (Seq (Chr CHR ''}'') (Seq keySuffix separator))) s (Suc i, Map.empty)"
    using True by (simp add: keyTapPattern_def run.simps(3) [of "Chr _"] run.simps(1))
  also have "\<dots> = concat (map ?F (run modifierGroup s (Suc i, Map.empty)))"
    by (rule run.simps(3))
  also have "run modifierGroup s (Suc i, Map.empty) = map ?G ?R"
    by (simp add: modifierGroup_def run.simps(7))
  finally have whole: "run keyTapPattern s (i, Map.empty) = concat (map ?F (map ?G ?R))" .
  have only: "\<forall>x\<in>set (map ?G ?R). x = ?a \<or> ?F x = []"
  proof
    fix x assume "x \<in> set (map ?G ?R)"
    then obtain t' where t': "t' \<in> set ?R" and x: "x = ?G t'" by auto
    from run_body_inB [OF t'] have b: "snd t' = Map.empty" "inB s (Suc i) (fst t')" by simp_all
    show "x = ?a \<or> ?F x = []"
    proof (cases "fst t' < length s \<and> s ! fst t' = CHR ''}''")
      case True
      with inB_end [OF b(2)] have "fst t' = ?j" by simp
      then show ?thesis using x b(1) by simp
    next
      case False
      then show ?thesis using x by (auto simp: F)
    qed
  qed
  show ?thesis
  proof (cases "0 < ?n \<and> ?j < length s")
    case False
    have "?a \<notin> set (map ?G ?R) \<or> ?F ?a = []"
    proof (cases "0 < ?n")
      case True
      with False show ?thesis by (simp add: F)
    next
      case n0: False
      have "?a \<notin> set (map ?G ?R)"
      proof
        assume "?a \<in> set (map ?G ?R)"
        then obtain t' where t': "t' \<in> set ?R" and "fst t' = ?j" by auto
        with run_body_inB [OF t'] n0 show False by simp
      qed
      then show ?thesis ..
    qed
    with only have "concat (map ?F (map ?G ?R)) = []" by (rule concat_only_empty)
    then have e: "run keyTapPattern s (i, Map.empty) = []" by (simp only: whole)
    have "groupAt s i = None" using False True by (auto simp: groupAt_def Let_def)
    then show ?thesis by (simp add: e)
  next
    case ok: True
    have brace: "s ! ?j = CHR ''}''"
    proof -
      have "?n < length (drop (Suc i) s)" using ok by (auto simp del: length_greater_0_conv)
      from nth_length_takeWhile [OF this] show ?thesis using ok by (simp add: add.commute)
    qed
    have mem: "?a \<in> set (map ?G ?R)"
    proof -
      have "(?j, Map.empty) \<in> set ?R" using ok run_body_end [of "Suc i" s Map.empty] by simp
      then have "?G (?j, Map.empty) \<in> set (map ?G ?R)" by (simp only: set_map) (rule imageI)
      then show ?thesis by simp
    qed
    have Fa: "?F ?a = run (Seq keySuffix separator) s (Suc ?j, [1 \<mapsto> (Suc i, ?j)])"
      using ok brace by (simp add: F)
    have ne: "?F ?a \<noteq> []" using run_tail [of s "(Suc ?j, [1 \<mapsto> (Suc i, ?j)])"] by (simp only: Fa) simp
    have res: "run keyTapPattern s (i, Map.empty) \<noteq> []"
      "hd (run keyTapPattern s (i, Map.empty)) = hd (?F ?a)"
      using concat_only_hd [OF only mem ne] unfolding whole by blast+
    have "hd (?F ?a) = hd (run separator s (hd (run keySuffix s (Suc ?j, [1 \<mapsto> (Suc i, ?j)]))))"
      using run_tail [of s "(Suc ?j, [1 \<mapsto> (Suc i, ?j)])"] by (simp only: Fa)
    then have hd: "hd (run keyTapPattern s (i, Map.empty)) =
        hd (run separator s (hd (run keySuffix s (Suc ?j, [1 \<mapsto> (Suc i, ?j)]))))"
      by (simp only: res(2))
    obtain t ts where tts: "run keyTapPattern s (i, Map.empty) = t # ts"
      using res(1) by (cases "run keyTapPattern s (i, Map.empty)") simp_all
    have t: "t = hd (run separator s (hd (run keySuffix s (Suc ?j, [1 \<mapsto> (Suc i, ?j)]))))"
      using hd tts by simp
    show ?thesis
      using True ok
      by (simp add: tts t groupAt_def Let_def pad_def groups_keyTapPattern run_keySuffix run_separator)
  qed
qed


lemma groupAt_bounds:
  assumes "groupAt s i = Some m"
  shows "length m = 6 \<and> m ! 0 = int i \<and> m ! 2 = int i + 1 \<and> m ! 2 < m ! 3 \<and> m ! 3 < m ! 1 \<and>
         m ! 1 \<le> int (length s) \<and>
         (m ! 4 = - 1 \<or> (m ! 4 = m ! 3 + 2 \<and> m ! 4 < m ! 5 \<and> m ! 5 \<le> m ! 1))"
proof -
  let ?j = "Suc i + length (takeWhile (\<lambda>c. c \<noteq> CHR ''}'') (drop (Suc i) s))"
  let ?k = "length (takeWhile keyChar (drop (?j + 2) s))"
  have k: "?k \<le> length s - (?j + 2)"
    using length_takeWhile_le [of keyChar "drop (?j + 2) s"] by simp
  from assms have c: "i < length s" "Suc i < ?j" "?j < length s"
    by (auto simp: groupAt_def Let_def split: if_splits)
  show ?thesis
  proof (cases "Suc ?j < length s \<and> s ! Suc ?j = CHR ''+'' \<and> 0 < ?k")
    case True
    with assms c k show ?thesis
      by (auto simp: groupAt_def Let_def simp del: length_greater_0_conv split: if_splits)
  next
    case False
    with assms c k show ?thesis
      by (auto simp: groupAt_def Let_def simp del: length_greater_0_conv split: if_splits)
  qed
qed

lemma firstMatch_keyTap_None:
  "firstMatch keyTapPattern s ps = None \<Longrightarrow> firstGroup s ps = None"
proof (induction ps)
  case Nil
  then show ?case by simp
next
  case (Cons i ps)
  then show ?case
    using keyTap_at [where s = s and i = i]
    by (cases "run keyTapPattern s (i, Map.empty)") (auto split: option.splits)
qed

lemma firstMatch_keyTap_Some:
  "firstMatch keyTapPattern s ps = Some (a, t) \<Longrightarrow>
     firstGroup s ps = Some (pad keyTapPattern a t) \<and> a \<in> set ps \<and> a < fst t"
proof (induction ps)
  case Nil
  then show ?case by simp
next
  case (Cons i ps)
  show ?case
  proof (cases "run keyTapPattern s (i, Map.empty)")
    case Nil
    with keyTap_at [where s = s and i = i] have "groupAt s i = None" by simp
    with Cons Nil show ?thesis by simp
  next
    case (Cons u us)
    with Cons.prems have eq: "a = i" "t = u" by simp_all
    from keyTap_at [where s = s and i = i] Cons have g: "groupAt s i = Some (pad keyTapPattern i u)" by simp
    from groupAt_bounds [OF g] have "int i < int (fst u)" by (simp add: pad_def)
    with g eq show ?thesis by simp
  qed
qed

lemma allMatches_keyTap: "allMatches keyTapPattern s n pos prev = scanGroups s n pos"
proof (induction n arbitrary: pos prev)
  case 0
  then show ?case by simp
next
  case (Suc n)
  show ?case
  proof (cases "firstMatch keyTapPattern s [pos..<Suc (length s)]")
    case None
    from firstMatch_keyTap_None [OF this] None show ?thesis by (simp del: upt_Suc)
  next
    case (Some at)
    obtain a t where at: "at = (a, t)" by (cases at)
    from firstMatch_keyTap_Some [OF Some [unfolded at]]
    have g: "firstGroup s [pos..<Suc (length s)] = Some (pad keyTapPattern a t)"
      and "a \<in> set [pos..<Suc (length s)]" and "a < fst t" by blast+
    then have ne: "fst t \<noteq> pos" by auto
    have "nat (pad keyTapPattern a t ! 1) = fst t" by (simp add: pad_def)
    with Some at g ne Suc.IH show ?thesis by (simp del: upt_Suc)
  qed
qed

lemma FindAll_keyTapPattern:
  "FindAllStringSubmatchIndex keyTapPattern s = scanGroups s (Suc (length s)) 0"
  unfolding FindAllStringSubmatchIndex_def by (rule allMatches_keyTap)

lemma firstGroup_Some: "firstGroup s ps = Some m \<Longrightarrow> \<exists>i\<in>set ps. groupAt s i = Some m"
  by (induction ps) (auto split: option.splits)

lemma scanGroups_groupAt: "m \<in> set (scanGroups s n pos) \<Longrightarrow> \<exists>i. groupAt s i = Some m"
proof (induction n arbitrary: pos)
  case 0
  then show ?case by simp
next
  case (Suc n)
  then show ?case by (auto simp del: upt_Suc split: option.splits dest: firstGroup_Some [OF sym])
qed

lemma FindAll_groupAt:
  "m \<in> set (FindAllStringSubmatchIndex keyTapPattern s) \<Longrightarrow> \<exists>i. groupAt s i = Some m"
  unfolding FindAll_keyTapPattern by (rule scanGroups_groupAt)

text \<open>
  The bound on the rounds of the search loop cuts nothing off: any two bounds that reach
  beyond the end of the string give the same matches, for every pattern.
\<close>

lemma star_mono:
  assumes "\<And>t t'. t' \<in> set (f t) \<Longrightarrow> fst t \<le> fst t'"
  shows "t' \<in> set (star f k t) \<Longrightarrow> fst t \<le> fst t'"
proof (induction k arbitrary: t)
  case 0
  then show ?case by simp
next
  case (Suc k)
  from Suc.prems consider "t' = t"
    | u where "u \<in> set (f t)" "fst t < fst u" "t' \<in> set (star f k u)"
    by (auto split: if_splits)
  then show ?case
  proof cases
    case 1
    then show ?thesis by simp
  next
    case 2
    from Suc.IH [OF 2(3)] 2(2) show ?thesis by simp
  qed
qed

lemma run_mono: "t' \<in> set (run r s t) \<Longrightarrow> fst t \<le> fst t'"
proof (induction r arbitrary: t t')
  case (Chr a)
  then show ?case by (auto simp: run.simps split: if_splits)
next
  case (Cls neg rs)
  then show ?case by (auto simp: run.simps split: if_splits)
next
  case (Seq r1 r2)
  from Seq.prems obtain u where "u \<in> set (run r1 s t)" "t' \<in> set (run r2 s u)"
    by (auto simp: run.simps)
  with Seq.IH show ?case by (blast intro: le_trans)
next
  case (Star r)
  from Star.prems have "t' \<in> set (star (run r s) (length s - fst t) t)" by (simp add: run.simps)
  from star_mono [of "run r s", OF Star.IH this] show ?case .
next
  case (Plus r)
  from Plus.prems obtain u where u: "u \<in> set (run r s t)"
    and "t' \<in> set (star (run r s) (length s - fst u) u)" by (auto simp: run.simps)
  from star_mono [of "run r s", OF Plus.IH this(2)] have "fst u \<le> fst t'" .
  with Plus.IH [OF u] show ?case by simp
next
  case (Opt r)
  from Opt.prems consider "t' \<in> set (run r s t)" | "t' = t" by (auto simp: run.simps)
  then show ?case
  proof cases
    case 1
    then show ?thesis by (rule Opt.IH)
  next
    case 2
    then show ?thesis by simp
  qed
next
  case (Grp n r)
  from Grp.prems obtain u where u: "u \<in> set (run r s t)" and "fst t' = fst u"
    by (auto simp: run.simps)
  with Grp.IH [OF u] show ?case by simp
qed

lemma firstMatch_bounds:
  "firstMatch r s ps = Some (a, t) \<Longrightarrow> a \<in> set ps \<and> a \<le> fst t"
proof (induction ps)
  case Nil
  then show ?case by simp
next
  case (Cons i ps)
  show ?case
  proof (cases "run r s (i, Map.empty)")
    case Nil
    with Cons show ?thesis by simp
  next
    case (Cons u us)
    then have "u \<in> set (run r s (i, Map.empty))" by simp
    from run_mono [OF this] Cons Cons.prems show ?thesis by simp
  qed
qed

lemma allMatches_fuel:
  "length s < pos + n \<Longrightarrow> length s < pos + n' \<Longrightarrow>
     allMatches r s n pos prev = allMatches r s n' pos prev"
proof (induction n arbitrary: n' pos prev)
  case 0
  then have "[pos..<Suc (length s)] = []" by simp
  then show ?case by (cases n') (simp_all del: upt_Suc)
next
  case (Suc n)
  show ?case
  proof (cases n')
    case 0
    with Suc.prems have "[pos..<Suc (length s)] = []" by simp
    with 0 show ?thesis by (simp del: upt_Suc)
  next
    case n': (Suc m)
    show ?thesis
    proof (cases "firstMatch r s [pos..<Suc (length s)]")
      case None
      then show ?thesis by (simp add: n' del: upt_Suc)
    next
      case (Some at)
      obtain a t where at: "at = (a, t)" by (cases at)
      from firstMatch_bounds [OF Some [unfolded at]] have b: "pos \<le> a" "a \<le> fst t"
        by (simp_all del: upt_Suc)
      show ?thesis
      proof (cases "fst t = pos")
        case True
        have "allMatches r s n (Suc pos) (Some (fst t)) = allMatches r s m (Suc pos) (Some (fst t))"
          using Suc.prems n' by (intro Suc.IH) simp_all
        with Some at True show ?thesis by (simp add: n' del: upt_Suc)
      next
        case False
        with b have "pos < fst t" by simp
        then have "allMatches r s n (fst t) (Some (fst t)) = allMatches r s m (fst t) (Some (fst t))"
          using Suc.prems n' by (intro Suc.IH) simp_all
        with Some at False show ?thesis by (simp add: n' del: upt_Suc)
      qed
    qed
  qed
qed

lemma FindAll_more_rounds:
  "FindAllStringSubmatchIndex r s = allMatches r s (Suc (length s) + k) 0 None"
  unfolding FindAllStringSubmatchIndex_def by (rule allMatches_fuel) simp_all

lemma groupAt_no_brace:
  assumes "CHR ''{'' \<notin> set s"
  shows "groupAt s i = None"
proof -
  have "\<not> (i < length s \<and> s ! i = CHR ''{'')" by (metis assms nth_mem)
  then show ?thesis by (simp add: groupAt_def)
qed

lemma firstGroup_no_brace: "CHR ''{'' \<notin> set s \<Longrightarrow> firstGroup s ps = None"
  by (induction ps) (simp_all add: groupAt_no_brace)

lemma FindAll_no_brace:
  "CHR ''{'' \<notin> set s \<Longrightarrow> FindAllStringSubmatchIndex keyTapPattern s = []"
  unfolding FindAll_keyTapPattern by (simp add: firstGroup_no_brace del: upt_Suc)

lemma simulateTyping_scan [code]:
  "simulateTyping text = typingLoop text 0 (scanGroups text (Suc (length text)) 0)"
  unfolding simulateTyping_def FindAll_keyTapPattern by (rule refl)

section \<open>Properties of the synthesizer\<close>

lemma Split_not_Nil: "Split s c \<noteq> []"
  by (induction s) (auto split: list.splits)

lemma modifierLoop_filter:
  "modifierLoop names (logged, modifiers) =
     (logged @ map LogUnknownModifier (unknownNames names), modifiers @ knownKeys names)"
  unfolding unknownNames_def knownKeys_def
  by (induction names arbitrary: logged modifiers) (auto split: option.splits)

lemma slice_ok:
  "0 \<le> lo \<Longrightarrow> lo \<le> hi \<Longrightarrow> hi \<le> int (length text) \<Longrightarrow>
     slice text lo hi = Inr (take (nat (hi - lo)) (drop (nat lo) text))"
  by (simp add: slice_def)

lemma groupAt_slices:
  assumes "groupAt text i = Some match"
  shows "slice text (match ! 2) (match ! 3) =
           Inr (take (nat (match ! 3 - match ! 2)) (drop (nat (match ! 2)) text))"
    and "match ! 4 \<noteq> - 1 \<Longrightarrow>
         slice text (match ! 4) (match ! 5) =
           Inr (take (nat (match ! 5 - match ! 4)) (drop (nat (match ! 4)) text))"
    and "0 \<le> lastIndex \<Longrightarrow> lastIndex \<le> match ! 0 \<Longrightarrow>
         slice text lastIndex (match ! 0) =
           Inr (take (nat (match ! 0 - lastIndex)) (drop (nat lastIndex) text))"
  using groupAt_bounds [OF assms] by (auto intro!: slice_ok)

lemma extract_groupAt:
  assumes "groupAt text i = Some match"
    and "slice text (match ! 2) (match ! 3) = Inr inside"
  shows "extractModifiersAndKeyFromMatch text match =
     (if match ! 4 \<noteq> - 1 then
        (map LogUnknownModifier (unknownNames (Split inside CHR ''+'')),
         Inr (knownKeys (Split inside CHR ''+''),
              take (nat (match ! 5 - match ! 4)) (drop (nat (match ! 4)) text)))
      else
        (map LogUnknownModifier (unknownNames (butlast (Split inside CHR ''+''))),
         Inr (knownKeys (butlast (Split inside CHR ''+'')),
              case modifierMap (last (Split inside CHR ''+'')) of None \<Rightarrow> [] | Some k \<Rightarrow> k)))"
proof -
  have len: "length match = 6" using groupAt_bounds [OF assms(1)] by simp
  show ?thesis
  proof (cases "match ! 4 \<noteq> - 1")
    case True
    from groupAt_slices(2) [OF assms(1) True] True len assms(2) show ?thesis
      by (simp add: extractModifiersAndKeyFromMatch_def modifierLoop_filter Let_def)
  next
    case False
    with len assms(2) show ?thesis
      by (simp add: extractModifiersAndKeyFromMatch_def modifierLoop_filter Split_not_Nil Let_def)
  qed
qed

lemma typingLoop_Cons:
  assumes "groupAt text i = Some match"
    and "0 \<le> lastIndex" and "lastIndex \<le> match ! 0"
    and "extractModifiersAndKeyFromMatch text match = (logged, Inr (modifiers, key))"
  shows "typingLoop text lastIndex (match # matches) =
     ((if lastIndex \<noteq> match ! 0
       then [TypeStr (take (nat (match ! 0 - lastIndex)) (drop (nat lastIndex) text))] else []) @
      logged @ keyTapWithModifiers modifiers key @ fst (typingLoop text (match ! 1 + 1) matches),
      snd (typingLoop text (match ! 1 + 1) matches))"
proof -
  have len: "length match = 6" using groupAt_bounds [OF assms(1)] by simp
  show ?thesis
    using len assms(4) groupAt_slices(3) [OF assms(1-3)]
    by (simp add: case_prod_unfold)
qed


lemma extract_groupAt_Inr:
  assumes "groupAt text i = Some match"
  shows "\<exists>logged modifiers key.
           extractModifiersAndKeyFromMatch text match = (logged, Inr (modifiers, key))"
  using extract_groupAt [OF assms groupAt_slices(1) [OF assms]] by (cases "match ! 4 \<noteq> - 1") auto

lemma separated_Cons:
  "separated (a # ms) \<Longrightarrow> ms \<noteq> [] \<Longrightarrow> a ! 1 < hd ms ! 0 \<and> separated ms"
  by (cases ms) simp_all

text \<open>
  The loop gets to a match when no match up to it starts where the one before it ends: it
  then emits what extraction gives for the match, between the operations of the earlier
  matches and those of the loop on the later ones.
\<close>

lemma typingLoop_reaches:
  assumes "\<forall>m\<in>set (before @ [match]). \<exists>i. groupAt text i = Some m"
    and "separated (before @ [match])"
    and "0 \<le> lastIndex" and "lastIndex \<le> hd (before @ [match]) ! 0"
    and "extractModifiersAndKeyFromMatch text match = (logged, Inr (modifiers, key))"
  shows "\<exists>pre. typingLoop text lastIndex (before @ match # after) =
           (pre @ logged @ keyTapWithModifiers modifiers key @
              fst (typingLoop text (match ! 1 + 1) after),
            snd (typingLoop text (match ! 1 + 1) after))"
  using assms(1-4)
proof (induction before arbitrary: lastIndex)
  case Nil
  then obtain i where g: "groupAt text i = Some match" by auto
  from Nil have le: "lastIndex \<le> match ! 0" by simp
  from typingLoop_Cons [OF g Nil.prems(3) le assms(5)] show ?case by auto
next
  case (Cons a before)
  from Cons.prems(1) obtain i where g: "groupAt text i = Some a" by auto
  from extract_groupAt_Inr [OF g] obtain la ma ka where
    ea: "extractModifiersAndKeyFromMatch text a = (la, Inr (ma, ka))" by blast
  from Cons.prems(4) have le: "lastIndex \<le> a ! 0" by simp
  note step = typingLoop_Cons [OF g Cons.prems(3) le ea, of "before @ match # after"]
  from separated_Cons [of a "before @ [match]"] Cons.prems(2)
  have nxt: "a ! 1 < hd (before @ [match]) ! 0" and sep: "separated (before @ [match])"
    by simp_all
  have pos: "0 \<le> a ! 1 + 1" using groupAt_bounds [OF g] by simp
  have all: "\<forall>m\<in>set (before @ [match]). \<exists>i. groupAt text i = Some m"
    using Cons.prems(1) by simp
  from Cons.IH [OF all sep pos] nxt obtain pre where
    rest: "typingLoop text (a ! 1 + 1) (before @ match # after) =
           (pre @ logged @ keyTapWithModifiers modifiers key @
              fst (typingLoop text (match ! 1 + 1) after),
            snd (typingLoop text (match ! 1 + 1) after))" by auto
  show ?case
    unfolding append_Cons step rest fst_conv snd_conv
    by (rule exI [of _ "(if lastIndex \<noteq> a ! 0
            then [TypeStr (take (nat (a ! 0 - lastIndex)) (drop (nat lastIndex) text))]
            else []) @ la @ keyTapWithModifiers ma ka @ pre"]) simp
qed

lemma simulateTyping_reaches:
  assumes "FindAllStringSubmatchIndex keyTapPattern text = before @ match # after"
    and "separated (before @ [match])"
    and "extractModifiersAndKeyFromMatch text match = (logged, Inr (modifiers, key))"
  shows "\<exists>pre. simulateTyping text =
           (pre @ logged @ keyTapWithModifiers modifiers key @
              fst (typingLoop text (match ! 1 + 1) after),
            snd (typingLoop text (match ! 1 + 1) after))"
proof -
  have all: "\<forall>m\<in>set (before @ [match]). \<exists>i. groupAt text i = Some m"
  proof
    fix m assume "m \<in> set (before @ [match])"
    then have "m \<in> set (FindAllStringSubmatchIndex keyTapPattern text)"
      unfolding assms(1) by auto
    then show "\<exists>i. groupAt text i = Some m" by (rule FindAll_groupAt)
  qed
  obtain h where h: "h \<in> set (before @ [match])" "hd (before @ [match]) = h"
    by (cases before) simp_all
  from all h obtain i where "groupAt text i = Some h" by blast
  from groupAt_bounds [OF this] h(2) have "0 \<le> hd (before @ [match]) ! 0" by simp
  from typingLoop_reaches [OF all assms(2) order_refl this assms(3), of after]
  show ?thesis unfolding simulateTyping_def assms(1) .
qed

text \<open>
  So for every match the loop gets to, the names the table lacks are logged and left out,
  the key is the captured trailing key or else the table entry of the last name (the empty
  key name when the table lacks it), and the loop goes on with the later matches.
\<close>

lemma reached_group_operations:
  assumes "FindAllStringSubmatchIndex keyTapPattern text = before @ match # after"
    and "separated (before @ [match])"
    and "slice text (match ! 2) (match ! 3) = Inr inside"
    and "names = (if match ! 4 \<noteq> - 1 then Split inside CHR ''+''
                  else butlast (Split inside CHR ''+''))"
    and "key = (if match ! 4 \<noteq> - 1
                then take (nat (match ! 5 - match ! 4)) (drop (nat (match ! 4)) text)
                else case modifierMap (last (Split inside CHR ''+'')) of
                       None \<Rightarrow> [] | Some k \<Rightarrow> k)"
  shows "\<exists>pre. simulateTyping text =
           (pre @ map LogUnknownModifier (unknownNames names) @
              [KeyTap key (knownKeys names), KeyTap ''shift'' []] @
              fst (typingLoop text (match ! 1 + 1) after),
            snd (typingLoop text (match ! 1 + 1) after))"
proof -
  have "match \<in> set (FindAllStringSubmatchIndex keyTapPattern text)" unfolding assms(1) by simp
  then obtain i where g: "groupAt text i = Some match" by (auto dest: FindAll_groupAt)
  have e: "extractModifiersAndKeyFromMatch text match =
             (map LogUnknownModifier (unknownNames names), Inr (knownKeys names, key))"
    using extract_groupAt [OF g assms(3)] assms(4,5) by simp
  from simulateTyping_reaches [OF assms(1,2) e] show ?thesis
    by (simp add: keyTapWithModifiers_def)
qed

subsection \<open>A directive that is one combo group\<close>

lemma takeWhile_inside:
  "CHR ''}'' \<notin> set inside \<Longrightarrow>
     takeWhile (\<lambda>c. c \<noteq> CHR ''}'') (inside @ CHR ''}'' # rest) = inside"
  by (induction inside) auto

lemma takeWhile_key:
  "\<forall>c\<in>set key. keyChar c \<Longrightarrow> takeWhile keyChar key = key"
  by (induction key) auto

lemma drop_key_suffix:
  "drop (length inside + 3) (CHR ''{'' # inside @ CHR ''}'' # CHR ''+'' # key) = key"
proof -
  define pre where "pre = CHR ''{'' # inside @ ''}+''"
  have a: "CHR ''{'' # inside @ CHR ''}'' # CHR ''+'' # key = pre @ key"
    and b: "length inside + 3 = length pre" by (simp_all add: pre_def)
  show ?thesis unfolding a b by simp
qed

lemma groupAt_bare:
  assumes "inside \<noteq> []" and "CHR ''}'' \<notin> set inside"
  shows "groupAt (CHR ''{'' # inside @ ''}'') 0 =
           Some [0, int (length inside) + 2, 1, int (length inside) + 1, - 1, - 1]"
  using assms by (simp add: groupAt_def takeWhile_inside Let_def)

lemma groupAt_with_key:
  assumes "inside \<noteq> []" and "CHR ''}'' \<notin> set inside"
    and "key \<noteq> []" and "\<forall>c\<in>set key. keyChar c"
  shows "groupAt (CHR ''{'' # inside @ ''}+'' @ key) 0 =
           Some [0, int (length inside) + 3 + int (length key), 1, int (length inside) + 1,
                 int (length inside) + 3, int (length inside) + 3 + int (length key)]"
proof -
  let ?s = "CHR ''{'' # inside @ ''}+'' @ key"
  have tw: "takeWhile (\<lambda>c. c \<noteq> CHR ''}'') (drop (Suc 0) ?s) = inside"
    using assms(2) takeWhile_inside [of inside "CHR ''+'' # key"] by simp
  have dr: "drop (Suc 0 + length inside + 2) ?s = key"
    using drop_key_suffix [of inside key] by (simp add: add.commute)
  have plus: "?s ! Suc (Suc 0 + length inside) = CHR ''+''"
    by (simp add: nth_append)
  show ?thesis
    unfolding groupAt_def Let_def tw dr plus takeWhile_key [OF assms(4)]
    using assms(1,3) by simp
qed

lemma scanGroups_whole:
  assumes "groupAt s 0 = Some m" and "nat (m ! 1) = length s"
  shows "scanGroups s (Suc (length s)) 0 = [m]"
proof -
  have ne: "0 < length s" using assms(1) by (auto simp: groupAt_def split: if_splits)
  then obtain n where n: "length s = Suc n" by (cases "length s") simp_all
  have first: "firstGroup s [0..<Suc (length s)] = Some m"
    using assms(1) by (simp add: upt_conv_Cons del: upt_Suc)
  have "groupAt s (length s) = None" by (simp add: groupAt_def)
  then have last: "firstGroup s [length s..<Suc (length s)] = None" by simp
  have "scanGroups s (length s) (length s) = []"
    unfolding n scanGroups.simps using last [unfolded n] by simp
  with first assms(2) show ?thesis by (simp del: upt_Suc)
qed

lemma bare_group_directive:
  assumes "inside \<noteq> []" and "CHR ''}'' \<notin> set inside"
  shows "simulateTyping (CHR ''{'' # inside @ ''}'') =
     (map LogUnknownModifier (unknownNames (butlast (Split inside CHR ''+''))) @
      [KeyTap (case modifierMap (last (Split inside CHR ''+'')) of None \<Rightarrow> [] | Some k \<Rightarrow> k)
              (knownKeys (butlast (Split inside CHR ''+''))),
       KeyTap ''shift'' []],
      None)"
proof -
  let ?s = "CHR ''{'' # inside @ ''}''"
  let ?m = "[0, int (length inside) + 2, 1, int (length inside) + 1, - 1, - 1]"
  have g: "groupAt ?s 0 = Some ?m" by (rule groupAt_bare [OF assms])
  have all: "scanGroups ?s (Suc (length ?s)) 0 = [?m]" by (rule scanGroups_whole [OF g]) simp
  have sl: "slice ?s (?m ! 2) (?m ! 3) = Inr inside" by (simp add: slice_def)
  have ex: "extractModifiersAndKeyFromMatch ?s ?m =
     (map LogUnknownModifier (unknownNames (butlast (Split inside CHR ''+''))),
      Inr (knownKeys (butlast (Split inside CHR ''+'')),
           case modifierMap (last (Split inside CHR ''+'')) of None \<Rightarrow> [] | Some k \<Rightarrow> k))"
    using extract_groupAt [OF g sl] by simp
  have "typingLoop ?s 0 [?m] =
     (map LogUnknownModifier (unknownNames (butlast (Split inside CHR ''+''))) @
      [KeyTap (case modifierMap (last (Split inside CHR ''+'')) of None \<Rightarrow> [] | Some k \<Rightarrow> k)
              (knownKeys (butlast (Split inside CHR ''+''))),
       KeyTap ''shift'' []],
      None)"
    using typingLoop_Cons [OF g _ _ ex, of 0 "[]"] by (simp add: keyTapWithModifiers_def)
  then show ?thesis unfolding simulateTyping_scan all .
qed

lemma keyed_group_directive:
  assumes "inside \<noteq> []" and "CHR ''}'' \<notin> set inside"
    and "key \<noteq> []" and "\<forall>c\<in>set key. keyChar c"
  shows "simulateTyping (CHR ''{'' # inside @ ''}+'' @ key) =
     (map LogUnknownModifier (unknownNames (Split inside CHR ''+'')) @
      [KeyTap key (knownKeys (Split inside CHR ''+'')), KeyTap ''shift'' []],
      None)"
proof -
  let ?s = "CHR ''{'' # inside @ ''}+'' @ key"
  let ?m = "[0, int (length inside) + 3 + int (length key), 1, int (length inside) + 1,
             int (length inside) + 3, int (length inside) + 3 + int (length key)]"
  have g: "groupAt ?s 0 = Some ?m" by (rule groupAt_with_key [OF assms])
  have all: "scanGroups ?s (Suc (length ?s)) 0 = [?m]" by (rule scanGroups_whole [OF g]) simp
  have sl: "slice ?s (?m ! 2) (?m ! 3) = Inr inside" by (simp add: slice_def)
  have "nat (?m ! 4) = length inside + 3" "nat (?m ! 5 - ?m ! 4) = length key" by simp_all
  then have k: "take (nat (?m ! 5 - ?m ! 4)) (drop (nat (?m ! 4)) ?s) = key"
    using drop_key_suffix [of inside key] by simp
  have ne: "?m ! 4 \<noteq> - 1" by simp
  have ex: "extractModifiersAndKeyFromMatch ?s ?m =
     (map LogUnknownModifier (unknownNames (Split inside CHR ''+'')),
      Inr (knownKeys (Split inside CHR ''+''), key))"
    using extract_groupAt [OF g sl] ne unfolding k by simp
  have "typingLoop ?s 0 [?m] =
     (map LogUnknownModifier (unknownNames (Split inside CHR ''+'')) @
      [KeyTap key (knownKeys (Split inside CHR ''+'')), KeyTap ''shift'' []],
      None)"
    using typingLoop_Cons [OF g _ _ ex, of 0 "[]"] by (simp add: keyTapWithModifiers_def)
  then show ?thesis unfolding simulateTyping_scan all .
qed

section \<open>The claims about the synthesizer\<close>

text \<open>The outputs of the few-shot examples of the default configuration, synthesized.\<close>

lemma default_example_directives:
  "simulateTyping ''cd ~'' = ([TypeStr ''cd ~''], None)"
  "simulateTyping ''{Command}+t'' = ([KeyTap ''t'' [''command''], KeyTap ''shift'' []], None)"
  "simulateTyping ''git rebase -i HEAD~3'' = ([TypeStr ''git rebase -i HEAD~3''], None)"
  "simulateTyping ''{Command+Shift}+d'' =
     ([KeyTap ''d'' [''command'', ''shift''], KeyTap ''shift'' []], None)"
  "simulateTyping ''{Command}+t\<newline>https://cnn.com{Enter}'' =
     ([KeyTap ''t'' [''command''], KeyTap ''shift'' [], TypeStr ''https://cnn.com'',
       KeyTap ''enter'' [], KeyTap ''shift'' []], None)"
  by code_simp+

text \<open>
  Claim C1. The literal spans the synthesizer types, the combo-group texts and their consumed
  separators should reconstruct the directive, nothing but the one separator being dropped
  after a combo group. On the directive \<open>{Command}+t ls\<close> the pattern consumes the
  group with its trailing space (the match ends at index 12), and the loop then resumes one
  index further: the letter \<open>l\<close> is neither typed nor part of the group, and only
  \<open>s\<close> is typed.
\<close>

theorem literal_after_separator_is_dropped:
  "FindAllStringSubmatchIndex keyTapPattern ''{Command}+t ls'' = [[0, 12, 1, 8, 10, 11]] \<and>
   simulateTyping ''{Command}+t ls'' =
     ([KeyTap ''t'' [''command''], KeyTap ''shift'' [], TypeStr ''s''], None)"
  unfolding FindAll_keyTapPattern by code_simp

text \<open>
  Claim C2. For some directive in which a combo group is followed at once by another one,
  the literal span before the second group starts one past the end of the first match, which
  is beyond the start of the second: the slice is out of range and the synthesizer stops with
  that panic. The directive \<open>{Command}+t{Enter}\<close> is one: its matches are \<open>[0, 11)\<close>
  and \<open>[11, 18)\<close>, the slice asked for is \<open>text[12:11]\<close>.
\<close>

theorem adjacent_groups_slice_out_of_range:
  "FindAllStringSubmatchIndex keyTapPattern ''{Command}+t{Enter}'' =
     [[0, 11, 1, 8, 10, 11], [11, 18, 12, 17, - 1, - 1]] \<and>
   slice ''{Command}+t{Enter}'' (11 + 1) 11 = Inl (SliceBounds 12 11) \<and>
   simulateTyping ''{Command}+t{Enter}'' =
     ([KeyTap ''t'' [''command''], KeyTap ''shift'' []], Some (SliceBounds 12 11))"
  unfolding FindAll_keyTapPattern by code_simp

text \<open>
  Claim C3. A trailing key made of letters and digits should be captured as the key, the
  names in the braces being modifiers only. The key class of the pattern has the digits
  \<open>1\<close> to \<open>9\<close> and lacks \<open>0\<close>: on \<open>{Command}+0\<close> no key is captured, the
  name in the braces becomes the key, and the \<open>0\<close> is typed as text.
\<close>

theorem zero_is_not_captured_as_key:
  "FindAllStringSubmatchIndex keyTapPattern ''{Command}+0'' = [[0, 9, 1, 8, - 1, - 1]] \<and>
   simulateTyping ''{Command}+0'' =
     ([KeyTap ''command'' [], KeyTap ''shift'' [], TypeStr ''0''], None)"
  unfolding FindAll_keyTapPattern by code_simp

text \<open>
  Claim C4, as stated: without a trailing key the last name in the braces becomes the key
  that is pressed. It does not when the table lacks the name: for \<open>{a}\<close> the key pressed
  is the empty key name, and no press of \<open>a\<close> happens.
\<close>

theorem last_name_is_not_pressed_literally:
  "simulateTyping ''{a}'' = ([KeyTap [] [], KeyTap ''shift'' []], None) \<and>
   KeyTap ''a'' [] \<notin> set (fst (simulateTyping ''{a}''))"
  by code_simp

text \<open>
  Claim C4, amended. For every combo group without a captured trailing key that the loop
  gets to, that is, when neither this group nor a group before it starts at the index where
  the match before it ends: the last name in the braces is looked up in the table and, when
  the table has it, its entry is the key that \<open>simulateTyping\<close> presses for the group; the
  names resolved as modifiers are the others, so the last name is always excluded from the
  modifier list; the press comes after the operations of the earlier groups and before those
  of the later ones. (When the table lacks the last name the lookup yields the empty key
  name. What happens to a group that starts where the match before it ends is left open
  here.)
\<close>

theorem key_is_table_entry_of_last_name:
  assumes "FindAllStringSubmatchIndex keyTapPattern text = before @ match # after"
    and "separated (before @ [match])"
    and "match ! 4 = - 1"
  shows "\<exists>inside key pre.
           slice text (match ! 2) (match ! 3) = Inr inside \<and>
           key = (case modifierMap (last (Split inside CHR ''+'')) of None \<Rightarrow> [] | Some k \<Rightarrow> k) \<and>
           extractModifiersAndKeyFromMatch text match =
             (map LogUnknownModifier (unknownNames (butlast (Split inside CHR ''+''))),
              Inr (knownKeys (butlast (Split inside CHR ''+'')), key)) \<and>
           simulateTyping text =
             (pre @ map LogUnknownModifier (unknownNames (butlast (Split inside CHR ''+''))) @
                [KeyTap key (knownKeys (butlast (Split inside CHR ''+''))), KeyTap ''shift'' []] @
                fst (typingLoop text (match ! 1 + 1) after),
              snd (typingLoop text (match ! 1 + 1) after))"
proof -
  have "match \<in> set (FindAllStringSubmatchIndex keyTapPattern text)" unfolding assms(1) by simp
  then obtain i where g: "groupAt text i = Some match" by (auto dest: FindAll_groupAt)
  let ?inside = "take (nat (match ! 3 - match ! 2)) (drop (nat (match ! 2)) text)"
  let ?names = "Split ?inside CHR ''+''"
  let ?key = "case modifierMap (last ?names) of None \<Rightarrow> [] | Some k \<Rightarrow> k"
  have s: "slice text (match ! 2) (match ! 3) = Inr ?inside" by (rule groupAt_slices(1) [OF g])
  have e: "extractModifiersAndKeyFromMatch text match =
             (map LogUnknownModifier (unknownNames (butlast ?names)),
              Inr (knownKeys (butlast ?names), ?key))"
    using extract_groupAt [OF g s] assms(3) by simp
  from simulateTyping_reaches [OF assms(1,2) e] obtain pre where
    "simulateTyping text =
       (pre @ map LogUnknownModifier (unknownNames (butlast ?names)) @
          [KeyTap ?key (knownKeys (butlast ?names)), KeyTap ''shift'' []] @
          fst (typingLoop text (match ! 1 + 1) after),
        snd (typingLoop text (match ! 1 + 1) after))"
    by (auto simp: keyTapWithModifiers_def)
  with s e show ?thesis by blast
qed

theorem key_is_table_entry_of_last_name_witness:
  "FindAllStringSubmatchIndex keyTapPattern ''{Command}+t x{Command+Shift}'' =
     [[0, 12, 1, 8, 10, 11]] @ [13, 28, 14, 27, - 1, - 1] # [] \<and>
   separated ([[0, 12, 1, 8, 10, 11]] @ [[13, 28, 14, 27, - 1, - 1]]) \<and>
   [13, 28, 14, 27, - 1, - 1] ! 4 = (- 1 :: int) \<and>
   extractModifiersAndKeyFromMatch ''{Command}+t x{Command+Shift}'' [13, 28, 14, 27, - 1, - 1] =
     ([], Inr ([''command''], ''shift'')) \<and>
   simulateTyping ''{Command}+t x{Command+Shift}'' =
     ([KeyTap ''t'' [''command''], KeyTap ''shift'' [],
       KeyTap ''shift'' [''command''], KeyTap ''shift'' []], None)"
proof -
  let ?text = "''{Command}+t x{Command+Shift}''"
  let ?b = "[[0, 12, 1, 8, 10, 11]] :: int list list"
  let ?m = "[13, 28, 14, 27, - 1, - 1] :: int list"
  have f: "FindAllStringSubmatchIndex keyTapPattern ?text = ?b @ ?m # []"
    unfolding FindAll_keyTapPattern by code_simp
  have p: "separated (?b @ [?m])" by simp
  have k: "?m ! 4 = - 1" by simp
  from key_is_table_entry_of_last_name [OF f p k] obtain inside key pre where
    a: "slice ?text (?m ! 2) (?m ! 3) = Inr inside"
    and b: "key = (case modifierMap (last (Split inside CHR ''+'')) of None \<Rightarrow> [] | Some k \<Rightarrow> k)"
    and c: "extractModifiersAndKeyFromMatch ?text ?m =
              (map LogUnknownModifier (unknownNames (butlast (Split inside CHR ''+''))),
               Inr (knownKeys (butlast (Split inside CHR ''+'')), key))"
    and d: "simulateTyping ?text =
             (pre @ map LogUnknownModifier (unknownNames (butlast (Split inside CHR ''+''))) @
                [KeyTap key (knownKeys (butlast (Split inside CHR ''+''))), KeyTap ''shift'' []] @
                fst (typingLoop ?text (?m ! 1 + 1) []),
              snd (typingLoop ?text (?m ! 1 + 1) []))"
    by blast
  have "slice ?text (?m ! 2) (?m ! 3) = Inr ''Command+Shift''" by code_simp
  with a have i: "inside = ''Command+Shift''" by simp
  have key: "key = ''shift''" unfolding b i by code_simp
  have un: "unknownNames (butlast (Split inside CHR ''+'')) = []" unfolding i by code_simp
  have kn: "knownKeys (butlast (Split inside CHR ''+'')) = [''command'']" unfolding i by code_simp
  have e: "extractModifiersAndKeyFromMatch ?text ?m = ([], Inr ([''command''], ''shift''))"
    using c unfolding key un kn by simp
  have t: "simulateTyping ?text =
     ([KeyTap ''t'' [''command''], KeyTap ''shift'' [],
       KeyTap ''shift'' [''command''], KeyTap ''shift'' []], None)" by code_simp
  from f p k e t show ?thesis by blast
qed

text \<open>
  Claim C5, as stated: a directive with no combo group, the empty directive included, yields
  exactly one \<open>TypeLiteral\<close> operation equal to the input. The empty directive has no
  combo group and yields no operation at all.
\<close>

theorem empty_directive_types_nothing:
  "FindAllStringSubmatchIndex keyTapPattern [] = [] \<and>
   simulateTyping [] = ([], None) \<and>
   simulateTyping [] \<noteq> ([TypeStr []], None)"
  unfolding FindAll_keyTapPattern by code_simp

text \<open>
  Claim C5, amended. For every non-empty directive in which the pattern finds no combo
  group, the synthesizer yields exactly one \<open>TypeLiteral\<close> operation, whose text is the
  whole directive, and no press; the empty directive yields no operation.
\<close>

theorem no_group_types_whole_directive:
  assumes "FindAllStringSubmatchIndex keyTapPattern text = []"
  shows "simulateTyping text = (if text = [] then [] else [TypeStr text], None)"
  using assms by (simp add: simulateTyping_def slice_def)

theorem no_group_types_whole_directive_witness:
  "FindAllStringSubmatchIndex keyTapPattern ''cd ~'' = [] \<and>
   simulateTyping ''cd ~'' = ([TypeStr ''cd ~''], None)"
proof -
  have n: "FindAllStringSubmatchIndex keyTapPattern ''cd ~'' = []"
    unfolding FindAll_keyTapPattern by code_simp
  from no_group_types_whole_directive [OF n] n show ?thesis by simp
qed

text \<open>
  Claim C6. A modifier name that the table lacks should be logged and dropped, the rest of
  the directive being synthesized as before. For a group the loop gets to this is what
  happens (\<open>reached_group_operations\<close>). But the directive
  \<open>{Command}+t{Foo+Command}+t\<close> has the unknown name \<open>Foo\<close> in a group that starts
  where the match before it ends: the loop asks for \<open>text[12:11]\<close> and panics before it
  handles that group, so \<open>Foo\<close> is never logged and nothing more is synthesized.
\<close>

theorem unknown_modifier_in_abutting_group_is_never_logged:
  "FindAllStringSubmatchIndex keyTapPattern ''{Command}+t{Foo+Command}+t'' =
     [[0, 11, 1, 8, 10, 11], [11, 26, 12, 23, 25, 26]] \<and>
   slice ''{Command}+t{Foo+Command}+t'' 12 23 = Inr ''Foo+Command'' \<and>
   modifierMap ''Foo'' = None \<and>
   simulateTyping ''{Command}+t{Foo+Command}+t'' =
     ([KeyTap ''t'' [''command''], KeyTap ''shift'' []], Some (SliceBounds 12 11)) \<and>
   LogUnknownModifier ''Foo'' \<notin> set (fst (simulateTyping ''{Command}+t{Foo+Command}+t''))"
  unfolding FindAll_keyTapPattern by code_simp

text \<open>
  Claim C10. A combo group without a trailing key whose last name the table lacks should get
  a press with the empty key name, and no error. For a group the loop gets to this is what
  happens (\<open>reached_group_operations\<close>, \<open>bare_group_directive\<close>). But in the
  directive \<open>{Command}+t{Foo}\<close> such a group starts where the match before it ends: the
  loop asks for \<open>text[12:11]\<close> and panics, and no press with the empty key name is made.
\<close>

theorem unrecognized_key_in_abutting_group_is_never_pressed:
  "FindAllStringSubmatchIndex keyTapPattern ''{Command}+t{Foo}'' =
     [[0, 11, 1, 8, 10, 11], [11, 16, 12, 15, - 1, - 1]] \<and>
   slice ''{Command}+t{Foo}'' 12 15 = Inr ''Foo'' \<and>
   modifierMap (last (Split ''Foo'' CHR ''+'')) = None \<and>
   simulateTyping ''{Command}+t{Foo}'' =
     ([KeyTap ''t'' [''command''], KeyTap ''shift'' []], Some (SliceBounds 12 11)) \<and>
   KeyTap [] [] \<notin> set (fst (simulateTyping ''{Command}+t{Foo}''))"
  unfolding FindAll_keyTapPattern by code_simp

section \<open>The claims about the listening loop\<close>

text \<open>
  Three phases of a cycle that no hotkey signal interrupts: listening with the timer armed,
  listening with the timer drained and the loop's own toggle pending, and idle. In each of
  them a run of rounds is a behaviour of the loop or it names a case that was not ready; it
  never blocks and never returns.
\<close>

lemma idle_stays_idle:
  "\<not> listening s \<Longrightarrow> listeningToggle s = 0 \<Longrightarrow> listeningTimeout s = Drained \<Longrightarrow> \<not> ctxDone s \<Longrightarrow>
   exec (map (\<lambda>(t, c). Round t c) rounds) s = NotReady \<or>
   (\<exists>s'. exec (map (\<lambda>(t, c). Round t c) rounds) s = Continue s' \<and>
         \<not> listening s' \<and> stops (map (\<lambda>(t, c). Round t c) rounds) s = 0)"
proof (induction rounds arbitrary: s)
  case Nil
  then show ?case by simp
next
  case (Cons r rounds)
  obtain t c where r: "r = (t, c)" by (cases r)
  from Cons.prems have "step (Round t c) s = NotReady \<or> step (Round t c) s = Continue s"
    by (cases c) (auto simp: timeoutReady_def)
  then show ?case
  proof
    assume "step (Round t c) s = NotReady"
    then show ?thesis by (simp add: r del: step.simps)
  next
    assume st: "step (Round t c) s = Continue s"
    from Cons.IH [OF Cons.prems] st Cons.prems(1) show ?thesis
      by (simp add: r del: step.simps)
  qed
qed

lemma pending_stop_is_taken:
  assumes "listening s" "listeningToggle s = 1" "listeningTimeout s = Drained" "\<not> ctxDone s"
  shows "exec (map (\<lambda>(t, c). Round t c) rounds) s = NotReady \<or>
   (\<exists>s'. exec (map (\<lambda>(t, c). Round t c) rounds) s = Continue s' \<and>
         (listening s' \<longleftrightarrow> rounds = []) \<and>
         stops (map (\<lambda>(t, c). Round t c) rounds) s = (if listening s' then 0 else 1))"
proof (cases rounds)
  case Nil
  with assms show ?thesis by simp
next
  case (Cons r rest)
  obtain t c where r: "r = (t, c)" by (cases r)
  from assms have "step (Round t c) s = NotReady \<or>
      (\<exists>u. step (Round t c) s = Continue u \<and> \<not> listening u \<and> listeningToggle u = 0 \<and>
           listeningTimeout u = Drained \<and> \<not> ctxDone u)"
    by (cases c) (auto simp: timeoutReady_def)
  then show ?thesis
  proof
    assume "step (Round t c) s = NotReady"
    then show ?thesis by (simp add: Cons r del: step.simps)
  next
    assume "\<exists>u. step (Round t c) s = Continue u \<and> \<not> listening u \<and> listeningToggle u = 0 \<and>
           listeningTimeout u = Drained \<and> \<not> ctxDone u"
    then obtain u where st: "step (Round t c) s = Continue u"
      and u: "\<not> listening u" "listeningToggle u = 0" "listeningTimeout u = Drained" "\<not> ctxDone u"
      by blast
    from idle_stays_idle [OF u, of rest] st assms(1) u(1) show ?thesis
      by (auto simp add: Cons r simp del: step.simps)
  qed
qed

lemma armed_timer_ends_listening:
  "listening s \<Longrightarrow> listeningToggle s = 0 \<Longrightarrow> listeningTimeout s = Armed d \<Longrightarrow> \<not> ctxDone s \<Longrightarrow>
   sorted (map fst rounds) \<Longrightarrow>
   exec (map (\<lambda>(t, c). Round t c) rounds) s = NotReady \<or>
   (\<exists>s'. exec (map (\<lambda>(t, c). Round t c) rounds) s = Continue s' \<and>
         (listening s' \<longleftrightarrow> length (filter (\<lambda>(t, c). d \<le> t) rounds) < 2) \<and>
         stops (map (\<lambda>(t, c). Round t c) rounds) s = (if listening s' then 0 else 1))"
proof (induction rounds arbitrary: s)
  case Nil
  then show ?case by simp
next
  case (Cons r rounds)
  obtain t c where r: "r = (t, c)" by (cases r)
  from Cons.prems(5) have sorted: "sorted (map fst rounds)" and later: "\<forall>x\<in>set rounds. t \<le> fst x"
    by (auto simp: r)
  show ?case
  proof (cases "d \<le> t")
    case False
    from Cons.prems False have "step (Round t c) s = NotReady \<or>
      (\<exists>u. step (Round t c) s = Continue u \<and> listening u \<and> listeningToggle u = 0 \<and>
           listeningTimeout u = Armed d \<and> \<not> ctxDone u)"
      by (cases c) (auto simp: timeoutReady_def split: option.splits)
    then show ?thesis
    proof
      assume "step (Round t c) s = NotReady"
      then show ?thesis by (simp add: r del: step.simps)
    next
      assume "\<exists>u. step (Round t c) s = Continue u \<and> listening u \<and> listeningToggle u = 0 \<and>
           listeningTimeout u = Armed d \<and> \<not> ctxDone u"
      then obtain u where st: "step (Round t c) s = Continue u"
        and u: "listening u" "listeningToggle u = 0" "listeningTimeout u = Armed d" "\<not> ctxDone u"
        by blast
      from Cons.IH [OF u sorted] st False Cons.prems(1) u(1) show ?thesis
        by (auto simp add: r simp del: step.simps)
    qed
  next
    case True
    from Cons.prems True have "step (Round t c) s = NotReady \<or>
      (\<exists>u. step (Round t c) s = Continue u \<and> listening u \<and> listeningToggle u = 1 \<and>
           listeningTimeout u = Drained \<and> \<not> ctxDone u)"
      by (cases c) (auto simp: timeoutReady_def)
    then show ?thesis
    proof
      assume "step (Round t c) s = NotReady"
      then show ?thesis by (simp add: r del: step.simps)
    next
      assume "\<exists>u. step (Round t c) s = Continue u \<and> listening u \<and> listeningToggle u = 1 \<and>
           listeningTimeout u = Drained \<and> \<not> ctxDone u"
      then obtain u where st: "step (Round t c) s = Continue u"
        and u: "listening u" "listeningToggle u = 1" "listeningTimeout u = Drained" "\<not> ctxDone u"
        by blast
      have all: "filter (\<lambda>(t, c). d \<le> t) rounds = rounds"
        using later True by (auto simp: filter_id_conv)
      have cnt: "length (filter (\<lambda>(t, c). d \<le> t) (r # rounds)) = Suc (length rounds)"
        using True by (simp add: r all)
      have ex: "exec (map (\<lambda>(t, c). Round t c) (r # rounds)) s =
                exec (map (\<lambda>(t, c). Round t c) rounds) u"
        using st by (simp add: r del: step.simps)
      have sp: "stops (map (\<lambda>(t, c). Round t c) (r # rounds)) s =
                stops (map (\<lambda>(t, c). Round t c) rounds) u"
        using st u(1) by (simp add: r del: step.simps)
      from pending_stop_is_taken [OF u, of rounds] show ?thesis
        unfolding ex sp cnt by (cases rounds) auto
    qed
  qed
qed

text \<open>
  And in each phase the loop can make a round at every clock reading: some case is ready
  and continues.
\<close>

lemma idle_can_run:
  "\<not> listening s \<Longrightarrow> listeningToggle s = 0 \<Longrightarrow> listeningTimeout s = Drained \<Longrightarrow> \<not> ctxDone s \<Longrightarrow>
   \<exists>cs s'. length cs = length ts \<and>
     exec (map (\<lambda>(t, c). Round t c) (zip ts cs)) s = Continue s'"
proof (induction ts)
  case Nil
  then show ?case by simp
next
  case (Cons t ts)
  from Cons.IH [OF Cons.prems] obtain cs s' where
    cs: "length cs = length ts" "exec (map (\<lambda>(t, c). Round t c) (zip ts cs)) s = Continue s'"
    by blast
  have "step (Round t (Default None)) s = Continue s"
    using Cons.prems by (simp add: timeoutReady_def)
  with cs have "length (Default None # cs) = length (t # ts) \<and>
     exec (map (\<lambda>(t, c). Round t c) (zip (t # ts) (Default None # cs))) s = Continue s'"
    by (simp del: step.simps)
  then show ?case by blast
qed

lemma pending_can_run:
  assumes "listening s" "listeningToggle s = 1" "listeningTimeout s = Drained" "\<not> ctxDone s"
  shows "\<exists>cs s'. length cs = length ts \<and>
     exec (map (\<lambda>(t, c). Round t c) (zip ts cs)) s = Continue s'"
proof (cases ts)
  case Nil
  then show ?thesis by simp
next
  case (Cons t rest)
  from assms obtain u where st: "step (Round t (RecvToggle None)) s = Continue u"
    and u: "\<not> listening u" "listeningToggle u = 0" "listeningTimeout u = Drained" "\<not> ctxDone u"
    by simp
  from idle_can_run [OF u, of rest] obtain cs s' where
    cs: "length cs = length rest" "exec (map (\<lambda>(t, c). Round t c) (zip rest cs)) u = Continue s'"
    by blast
  with st have "length (RecvToggle None # cs) = length ts \<and>
     exec (map (\<lambda>(t, c). Round t c) (zip ts (RecvToggle None # cs))) s = Continue s'"
    by (simp add: Cons del: step.simps)
  then show ?thesis by blast
qed

lemma armed_can_run:
  "listening s \<Longrightarrow> listeningToggle s = 0 \<Longrightarrow> listeningTimeout s = Armed d \<Longrightarrow> \<not> ctxDone s \<Longrightarrow>
   \<exists>cs s'. length cs = length ts \<and>
     exec (map (\<lambda>(t, c). Round t c) (zip ts cs)) s = Continue s'"
proof (induction ts arbitrary: s)
  case Nil
  then show ?case by simp
next
  case (Cons t ts)
  show ?case
  proof (cases "d \<le> t")
    case False
    have st: "step (Round t (Default None)) s = Continue s"
      using Cons.prems False by (simp add: timeoutReady_def)
    from Cons.IH [OF Cons.prems] obtain cs s' where
      cs: "length cs = length ts" "exec (map (\<lambda>(t, c). Round t c) (zip ts cs)) s = Continue s'"
      by blast
    with st have "length (Default None # cs) = length (t # ts) \<and>
       exec (map (\<lambda>(t, c). Round t c) (zip (t # ts) (Default None # cs))) s = Continue s'"
      by (simp del: step.simps)
    then show ?thesis by blast
  next
    case True
    from Cons.prems True obtain u where st: "step (Round t RecvTimeout) s = Continue u"
      and u: "listening u" "listeningToggle u = 1" "listeningTimeout u = Drained" "\<not> ctxDone u"
      by (simp add: timeoutReady_def)
    from pending_can_run [OF u, of ts] obtain cs s' where
      cs: "length cs = length ts" "exec (map (\<lambda>(t, c). Round t c) (zip ts cs)) u = Continue s'"
      by blast
    with st have "length (RecvTimeout # cs) = length (t # ts) \<and>
       exec (map (\<lambda>(t, c). Round t c) (zip (t # ts) (RecvTimeout # cs))) s = Continue s'"
      by (simp del: step.simps)
    then show ?thesis by blast
  qed
qed

text \<open>
  Claim C7. In every state of the loop, reachable or not, and for every step that the loop or
  its surroundings can take: the buffer changes only by an append of collected samples made
  in the default case while Listening, or by the reset made on entering Listening; so in
  Idle nothing is ever appended, and right after a transition from Idle to Listening the
  buffer is empty.
\<close>

theorem buffer_appended_only_while_listening:
  assumes "step e s = Continue s'"
  shows "(audioBuffer s' = audioBuffer s \<or>
          (listening s \<and> (\<exists>now buf. e = Round now (Default (Some buf)) \<and>
                                      audioBuffer s' = audioBuffer s @ buf)) \<or>
          (\<not> listening s \<and> listening s' \<and> audioBuffer s' = [])) \<and>
         (\<not> listening s \<longrightarrow> audioBuffer s' = audioBuffer s \<or> audioBuffer s' = []) \<and>
         (\<not> listening s \<longrightarrow> listening s' \<longrightarrow> audioBuffer s' = [])"
proof (cases e)
  case Hotkey
  with assms show ?thesis by (auto split: if_splits)
next
  case Cancel
  with assms show ?thesis by auto
next
  case (Round now c)
  with assms show ?thesis
    by (cases c) (auto split: if_splits option.splits)
qed

theorem buffer_appended_only_while_listening_witness:
  "step (Round 7 (RecvToggle None))
        \<lparr>listening = False, listeningTimeout = NilChan, audioBuffer = [3, 4 :: nat],
         listeningToggle = 1, ctxDone = False, calls = []\<rparr> =
     Continue \<lparr>listening = True, listeningTimeout = Armed (7 + DefaultTimeout), audioBuffer = [],
               listeningToggle = 0, ctxDone = False, calls = [Start]\<rparr> \<and>
   audioBuffer \<lparr>listening = True, listeningTimeout = Armed (7 + DefaultTimeout),
                audioBuffer = [] :: nat list,
                listeningToggle = 0, ctxDone = False, calls = [Start]\<rparr> = []"
proof -
  let ?s = "\<lparr>listening = False, listeningTimeout = NilChan, audioBuffer = [3, 4 :: nat],
             listeningToggle = 1, ctxDone = False, calls = []\<rparr>"
  let ?s' = "\<lparr>listening = True, listeningTimeout = Armed (7 + DefaultTimeout),
              audioBuffer = [] :: nat list,
              listeningToggle = 0, ctxDone = False, calls = [Start]\<rparr>"
  have st: "step (Round 7 (RecvToggle None)) ?s = Continue ?s'" by simp
  from buffer_appended_only_while_listening [OF st]
  have "\<not> listening ?s \<longrightarrow> listening ?s' \<longrightarrow> audioBuffer ?s' = []" by blast
  then have "audioBuffer ?s' = []" by simp
  with st show ?thesis by blast
qed

text \<open>
  Claim C8. Let the loop be Idle with a toggle signal pending and the context live, whatever
  timer an earlier cycle has left behind, and let it take the toggle at clock reading
  \<open>t0\<close>. Let rounds follow at later clock readings, with no further toggle signal from
  the hotkey and no cancellation. Then:
  \<^item> the loop can make these rounds: at every one of the clock readings some case is
    ready and continues;
  \<^item> whatever cases the rounds take, the run never blocks and never returns; it is a
    behaviour of the loop, or it names a case that was not ready;
  \<^item> after a run that is a behaviour, the loop is still Listening exactly when fewer than
    two of the rounds were made at or after \<open>t0 + DefaultTimeout\<close>, and the run has one
    transition from Listening to Idle if the loop is Idle and none otherwise;
  \<^item> the default duration is thirty seconds;
  \<^item> while the loop listens with the timer armed and no toggle pending, a round at or
    after the deadline finds the timeout case ready, the timeout case drains the timer and
    sends the toggle, and no other case is ready; the round after that finds only the toggle
    case ready, and taking it makes the loop Idle;
  \<^item> entering Listening always arms a fresh timer in place of the one it finds, so the
    deadline that counts is that of the current cycle;
  \<^item> taking the timeout while Idle only drains the timer.
\<close>

theorem inactivity_timer_stops_listening_once:
  fixes s0 :: "'a loopState"
  assumes "\<not> listening s0" and "listeningToggle s0 = 1" and "\<not> ctxDone s0"
    and "sorted (t0 # map fst rounds)"
  shows "(\<exists>cs s. length cs = length rounds \<and>
            exec (Round t0 (RecvToggle tr) # map (\<lambda>(t, c). Round t c) (zip (map fst rounds) cs)) s0
              = Continue s) \<and>
         exec (Round t0 (RecvToggle tr) # map (\<lambda>(t, c). Round t c) rounds) s0 \<noteq> Blocked \<and>
         exec (Round t0 (RecvToggle tr) # map (\<lambda>(t, c). Round t c) rounds) s0 \<noteq> Returned \<and>
         (\<forall>s. exec (Round t0 (RecvToggle tr) # map (\<lambda>(t, c). Round t c) rounds) s0 = Continue s \<longrightarrow>
            (listening s \<longleftrightarrow> length (filter (\<lambda>(t, c). t0 + DefaultTimeout \<le> t) rounds) < 2) \<and>
            stops (Round t0 (RecvToggle tr) # map (\<lambda>(t, c). Round t c) rounds) s0 =
              (if listening s then 0 else 1)) \<and>
         DefaultTimeout = 30 * 1000000000 \<and>
         (\<forall>(u :: 'a loopState) d now.
            listening u \<and> listeningToggle u = 0 \<and> \<not> ctxDone u \<and>
            listeningTimeout u = Armed d \<and> d \<le> now \<longrightarrow>
              mainLoopRound now RecvTimeout u =
                Continue (u\<lparr>listeningTimeout := Drained, listeningToggle := 1\<rparr>) \<and>
              (\<forall>c. c \<noteq> RecvTimeout \<longrightarrow> mainLoopRound now c u = NotReady)) \<and>
         (\<forall>(u :: 'a loopState) now answer.
            listening u \<and> listeningToggle u = 1 \<and> \<not> ctxDone u \<and> listeningTimeout u = Drained \<longrightarrow>
              (\<exists>u'. mainLoopRound now (RecvToggle answer) u = Continue u' \<and>
                    \<not> listening u' \<and> listeningToggle u' = 0) \<and>
              (\<forall>c. (\<forall>a. c \<noteq> RecvToggle a) \<longrightarrow> mainLoopRound now c u = NotReady)) \<and>
         (\<forall>(u :: 'a loopState) now answer u'. \<not> listening u \<longrightarrow>
            mainLoopRound now (RecvToggle answer) u = Continue u' \<longrightarrow>
              listening u' \<and> listeningTimeout u' = Armed (now + DefaultTimeout)) \<and>
         (\<forall>(u :: 'a loopState) now. \<not> listening u \<longrightarrow>
            mainLoopRound now RecvTimeout u = NotReady \<or>
            mainLoopRound now RecvTimeout u = Continue (u\<lparr>listeningTimeout := Drained\<rparr>))"
proof -
  let ?s1 = "s0\<lparr>listeningToggle := listeningToggle s0 - 1, listening := True,
               listeningTimeout := Armed (t0 + DefaultTimeout), audioBuffer := [],
               calls := calls s0 @ [Start]\<rparr>"
  let ?run = "Round t0 (RecvToggle tr) # map (\<lambda>(t, c). Round t c) rounds"
  have st: "step (Round t0 (RecvToggle tr)) s0 = Continue ?s1" using assms(1,2) by simp
  have p: "listening ?s1" "listeningToggle ?s1 = 0" "listeningTimeout ?s1 = Armed (t0 + DefaultTimeout)"
    "\<not> ctxDone ?s1" using assms(2,3) by simp_all
  have srt: "sorted (map fst rounds)" using assms(4) by simp
  have ex: "exec ?run s0 = exec (map (\<lambda>(t, c). Round t c) rounds) ?s1"
    using st by (simp del: step.simps)
  have sp: "stops ?run s0 = stops (map (\<lambda>(t, c). Round t c) rounds) ?s1"
    using st assms(1) by (simp del: step.simps)
  note main = armed_timer_ends_listening [OF p srt]
  have q1: "\<exists>cs s. length cs = length rounds \<and>
            exec (Round t0 (RecvToggle tr) # map (\<lambda>(t, c). Round t c) (zip (map fst rounds) cs)) s0
              = Continue s"
    using armed_can_run [OF p, of "map fst rounds"] st by (simp del: step.simps)
  have q2: "exec ?run s0 \<noteq> Blocked" and q3: "exec ?run s0 \<noteq> Returned"
    using main unfolding ex by auto
  have q4: "\<forall>s. exec ?run s0 = Continue s \<longrightarrow>
            (listening s \<longleftrightarrow> length (filter (\<lambda>(t, c). t0 + DefaultTimeout \<le> t) rounds) < 2) \<and>
            stops ?run s0 = (if listening s then 0 else 1)"
    using main unfolding ex sp by auto
  have q5: "DefaultTimeout = 30 * 1000000000" by (simp add: DefaultTimeout_def Second_def)
  have q6: "\<forall>(u :: 'a loopState) d now.
            listening u \<and> listeningToggle u = 0 \<and> \<not> ctxDone u \<and>
            listeningTimeout u = Armed d \<and> d \<le> now \<longrightarrow>
              mainLoopRound now RecvTimeout u =
                Continue (u\<lparr>listeningTimeout := Drained, listeningToggle := 1\<rparr>) \<and>
              (\<forall>c. c \<noteq> RecvTimeout \<longrightarrow> mainLoopRound now c u = NotReady)"
  proof (intro allI impI conjI)
    fix u :: "'a loopState" and d now
    assume h: "listening u \<and> listeningToggle u = 0 \<and> \<not> ctxDone u \<and>
               listeningTimeout u = Armed d \<and> d \<le> now"
    then show "mainLoopRound now RecvTimeout u =
                 Continue (u\<lparr>listeningTimeout := Drained, listeningToggle := 1\<rparr>)"
      by (simp add: timeoutReady_def)
    fix c :: "'a selected"
    assume "c \<noteq> RecvTimeout"
    with h show "mainLoopRound now c u = NotReady"
      by (cases c) (simp_all add: timeoutReady_def)
  qed
  have q7: "\<forall>(u :: 'a loopState) now answer.
            listening u \<and> listeningToggle u = 1 \<and> \<not> ctxDone u \<and> listeningTimeout u = Drained \<longrightarrow>
              (\<exists>u'. mainLoopRound now (RecvToggle answer) u = Continue u' \<and>
                    \<not> listening u' \<and> listeningToggle u' = 0) \<and>
              (\<forall>c. (\<forall>a. c \<noteq> RecvToggle a) \<longrightarrow> mainLoopRound now c u = NotReady)"
  proof (intro allI impI conjI)
    fix u :: "'a loopState" and now answer
    assume h: "listening u \<and> listeningToggle u = 1 \<and> \<not> ctxDone u \<and> listeningTimeout u = Drained"
    then show "\<exists>u'. mainLoopRound now (RecvToggle answer) u = Continue u' \<and>
                    \<not> listening u' \<and> listeningToggle u' = 0"
      by simp
    fix c :: "'a selected"
    assume "\<forall>a. c \<noteq> RecvToggle a"
    with h show "mainLoopRound now c u = NotReady"
      by (cases c) (simp_all add: timeoutReady_def)
  qed
  have q8: "\<forall>(u :: 'a loopState) now answer u'. \<not> listening u \<longrightarrow>
            mainLoopRound now (RecvToggle answer) u = Continue u' \<longrightarrow>
              listening u' \<and> listeningTimeout u' = Armed (now + DefaultTimeout)"
    by (auto split: if_splits)
  have q9: "\<forall>(u :: 'a loopState) now. \<not> listening u \<longrightarrow>
            mainLoopRound now RecvTimeout u = NotReady \<or>
            mainLoopRound now RecvTimeout u = Continue (u\<lparr>listeningTimeout := Drained\<rparr>)"
    by simp
  show ?thesis by (intro conjI q1 q2 q3 q4 q5 q6 q7 q8 q9)
qed

theorem inactivity_timer_stops_listening_once_witness:
  "\<not> listening (initial\<lparr>listeningToggle := 1\<rparr> :: nat loopState) \<and>
   listeningToggle (initial\<lparr>listeningToggle := 1\<rparr> :: nat loopState) = 1 \<and>
   \<not> ctxDone (initial\<lparr>listeningToggle := 1\<rparr> :: nat loopState) \<and>
   sorted (5 # map fst [(1000000005 :: nat, Default (Some [1, 2 :: nat])),
                        (30000000005, RecvTimeout),
                        (30000000005, RecvToggle (Some ''cd ~'')),
                        (31000000000, Default None)]) \<and>
   exec (Round 5 (RecvToggle None) #
         map (\<lambda>(t, c). Round t c)
           [(1000000005, Default (Some [1, 2])),
            (30000000005, RecvTimeout),
            (30000000005, RecvToggle (Some ''cd ~'')),
            (31000000000, Default None)])
        (initial\<lparr>listeningToggle := 1\<rparr>) =
     Continue \<lparr>listening = False, listeningTimeout = Drained, audioBuffer = [1, 2 :: nat],
               listeningToggle = 0, ctxDone = False,
               calls = [Start, Stop, Transcribe [1, 2], HandleText ''cd ~'']\<rparr> \<and>
   length (filter (\<lambda>(t, c). 5 + DefaultTimeout \<le> t)
             [(1000000005 :: nat, Default (Some [1, 2 :: nat])),
              (30000000005, RecvTimeout),
              (30000000005, RecvToggle (Some ''cd ~'')),
              (31000000000, Default None)]) = 3 \<and>
   stops (Round 5 (RecvToggle None) #
          map (\<lambda>(t, c). Round t c)
            [(1000000005, Default (Some [1, 2 :: nat])),
             (30000000005, RecvTimeout),
             (30000000005, RecvToggle (Some ''cd ~'')),
             (31000000000, Default None)])
         (initial\<lparr>listeningToggle := 1\<rparr>) = 1"
proof -
  let ?start = "initial\<lparr>listeningToggle := 1\<rparr> :: nat loopState"
  let ?rounds = "[(1000000005 :: nat, Default (Some [1, 2 :: nat])),
                  (30000000005, RecvTimeout),
                  (30000000005, RecvToggle (Some ''cd ~'')),
                  (31000000000, Default None)]"
  let ?final = "\<lparr>listening = False, listeningTimeout = Drained, audioBuffer = [1, 2 :: nat],
             listeningToggle = 0, ctxDone = False,
             calls = [Start, Stop, Transcribe [1, 2], HandleText ''cd ~'']\<rparr>"
  have h1: "\<not> listening ?start" by (simp add: initial_def)
  have h2: "listeningToggle ?start = 1" by simp
  have h3: "\<not> ctxDone ?start" by (simp add: initial_def)
  have h4: "sorted (5 # map fst ?rounds)" by simp
  have h5: "exec (Round 5 (RecvToggle None) # map (\<lambda>(t, c). Round t c) ?rounds) ?start =
              Continue ?final"
    by (simp add: initial_def timeoutReady_def DefaultTimeout_def Second_def)
  have h6: "length (filter (\<lambda>(t, c). 5 + DefaultTimeout \<le> t) ?rounds) = 3"
    by (simp add: DefaultTimeout_def Second_def)
  note all = inactivity_timer_stops_listening_once [OF h1 h2 h3 h4, of None]
  note run = all [THEN conjunct2, THEN conjunct2, THEN conjunct2, THEN conjunct1,
                  rule_format, OF h5]
  from run
  have "stops (Round 5 (RecvToggle None) # map (\<lambda>(t, c). Round t c) ?rounds) ?start =
          (if listening ?final then 0 else 1)" by (rule conjunct2)
  then have "stops (Round 5 (RecvToggle None) # map (\<lambda>(t, c). Round t c) ?rounds) ?start = 1"
    by (simp only: select_convs if_False)
  with h1 h2 h3 h4 h5 h6 show ?thesis by (intro conjI)
qed

section \<open>The claim about the dispatcher\<close>

lemma exampleLoop_append:
  "exampleLoop examples messages =
     messages @ concat (map (\<lambda>e. [HumanChatMessage (Input e), AIChatMessage (Output e)]) examples)"
  by (induction examples arbitrary: messages) simp_all

lemma programLoop_messages:
  "fst (programLoop programs activeApp (messages, n)) =
     messages @
     concat (map (\<lambda>p. concat (map (\<lambda>e. [HumanChatMessage (Input e), AIChatMessage (Output e)])
                                   (Examples p)))
                 (filter (\<lambda>p. Program p = activeApp) programs))"
  by (induction programs arbitrary: messages n) (simp_all add: exampleLoop_append)

lemma pair_of_let: "x = (let m = M in (m, F m)) \<Longrightarrow> x = (fst x, F (fst x))"
  by (simp add: Let_def)

lemma systemPrompt_text:
  "systemPrompt activeApp =
     ''You are an AI assistant that interprets transcribed voice input\<newline>'' @
     ''and translates it into commands or text inputs for various applications. \<newline>'' @
     ''\<newline>'' @
     ''Your current active program is '' @ activeApp @
     ''. Adjust your interpretation based on this context.\<newline>'' @
     ''\<newline>'' @
     ''When interpreting commands, please indicate modifier keys such as Command, Option, Shift, \<newline>'' @
     ''or Control using curly braces. For instance, use '' @ [CHR 0x27] @ ''{Command}+t'' @ [CHR 0x27] @
     '' for opening a new tab.\<newline>'' @
     ''\<newline>'' @
     ''When outputting a command with a modifier key, use Shift as a modifier instead of including an uppercase character.\<newline>'' @
     ''\<newline>'' @
     ''Your output will be used as keyboard input for the active application.\<newline>'' @
     ''Return the input exactly as provided if you aren'' @ [CHR 0x27] @ ''t confident in your answer.''"
  unfolding systemPrompt_def systemPromptHead_def systemPromptTail_def by (simp only: append_assoc)

lemma systemPrompt_inj: "systemPrompt a = systemPrompt b \<longleftrightarrow> a = b"
  by (simp add: systemPrompt_def)

text \<open>
  Claim C9. \<open>handleText\<close> applies the language model to one message sequence, and what it
  then types is the synthesis of the model's answer to that sequence. The sequence is: the
  system instruction, which is the prompt text with the name of the active application in
  the place of its one verb (so that different names give different instructions); then for
  every configured program whose name is equal to the name of the active application
  (equality of strings, so letter case counts) its pairs, each as a human message followed
  by an assistant message, in configuration order; then the transcribed text as the last
  human message. No pair is sent when no program has that name, and the pairs of the one
  program when one program has it.
\<close>

theorem messages_sent_to_language_model:
  "handleText cfg llm activeApp text =
     (let messages =
        SystemChatMessage
          (''You are an AI assistant that interprets transcribed voice input\<newline>'' @
           ''and translates it into commands or text inputs for various applications. \<newline>'' @
           ''\<newline>'' @
           ''Your current active program is '' @ activeApp @
           ''. Adjust your interpretation based on this context.\<newline>'' @
           ''\<newline>'' @
           ''When interpreting commands, please indicate modifier keys such as Command, Option, Shift, \<newline>'' @
           ''or Control using curly braces. For instance, use '' @ [CHR 0x27] @ ''{Command}+t'' @ [CHR 0x27] @
           '' for opening a new tab.\<newline>'' @
           ''\<newline>'' @
           ''When outputting a command with a modifier key, use Shift as a modifier instead of including an uppercase character.\<newline>'' @
           ''\<newline>'' @
           ''Your output will be used as keyboard input for the active application.\<newline>'' @
           ''Return the input exactly as provided if you aren'' @ [CHR 0x27] @ ''t confident in your answer.'') #
        concat (map (\<lambda>p. concat (map (\<lambda>e. [HumanChatMessage (Input e), AIChatMessage (Output e)])
                                      (Examples p)))
                    (filter (\<lambda>p. Program p = activeApp) (Programs cfg))) @
        [HumanChatMessage text]
      in (messages, map_option simulateTyping (llm messages))) \<and>
   (\<forall>other. systemPrompt other = systemPrompt activeApp \<longrightarrow> other = activeApp) \<and>
   ((\<forall>p\<in>set (Programs cfg). Program p \<noteq> activeApp) \<longrightarrow>
      fst (handleText cfg llm activeApp text) =
        [SystemChatMessage (systemPrompt activeApp), HumanChatMessage text]) \<and>
   (\<forall>p. filter (\<lambda>q. Program q = activeApp) (Programs cfg) = [p] \<longrightarrow>
      fst (handleText cfg llm activeApp text) =
        SystemChatMessage (systemPrompt activeApp) #
        concat (map (\<lambda>e. [HumanChatMessage (Input e), AIChatMessage (Output e)]) (Examples p)) @
        [HumanChatMessage text])"
proof -
  let ?messages = "SystemChatMessage (systemPrompt activeApp) #
     concat (map (\<lambda>p. concat (map (\<lambda>e. [HumanChatMessage (Input e), AIChatMessage (Output e)])
                                   (Examples p)))
                 (filter (\<lambda>p. Program p = activeApp) (Programs cfg))) @
     [HumanChatMessage text]"
  have h: "handleText cfg llm activeApp text =
             (?messages, map_option simulateTyping (llm ?messages))"
    by (simp add: handleText_def Let_def programLoop_messages split: option.splits)
  have q1: "handleText cfg llm activeApp text =
     (let messages = ?messages in (messages, map_option simulateTyping (llm messages)))"
    unfolding Let_def by (rule h)
  have q2: "\<forall>other. systemPrompt other = systemPrompt activeApp \<longrightarrow> other = activeApp"
    by (simp add: systemPrompt_inj)
  have e: "filter (\<lambda>p. Program p = activeApp) (Programs cfg) = []"
    if "\<forall>p\<in>set (Programs cfg). Program p \<noteq> activeApp"
    using that by (simp add: filter_empty_conv)
  have q3: "(\<forall>p\<in>set (Programs cfg). Program p \<noteq> activeApp) \<longrightarrow>
      fst (handleText cfg llm activeApp text) =
        [SystemChatMessage (systemPrompt activeApp), HumanChatMessage text]"
    using e by (simp add: h)
  have q4: "\<forall>p. filter (\<lambda>q. Program q = activeApp) (Programs cfg) = [p] \<longrightarrow>
      fst (handleText cfg llm activeApp text) =
        SystemChatMessage (systemPrompt activeApp) #
        concat (map (\<lambda>e. [HumanChatMessage (Input e), AIChatMessage (Output e)]) (Examples p)) @
        [HumanChatMessage text]"
    by (simp add: h)
  show ?thesis
    using q1 q2 q3 q4 unfolding systemPrompt_text [of activeApp, symmetric] by (intro conjI)
qed

theorem messages_sent_to_language_model_witness:
  "map Program (Programs defaultConfig) = [''iTerm2'', ''Google Chrome''] \<and>
   fst (handleText defaultConfig (\<lambda>messages. None) ''iterm2'' ''new tab'') =
     [SystemChatMessage (systemPrompt ''iterm2''), HumanChatMessage ''new tab''] \<and>
   filter (\<lambda>q. Program q = ''Google Chrome'') (Programs defaultConfig) =
     [\<lparr>Program = ''Google Chrome'',
       Examples = [\<lparr>Input = ''Visit CNN.com and a new tab.'',
                    Output = ''{Command}+t\<newline>https://cnn.com{Enter}''\<rparr>]\<rparr>] \<and>
   handleText defaultConfig
      (\<lambda>messages. if length messages = 4 then Some ''cd ~'' else None)
      ''Google Chrome'' ''open the news'' =
     ([SystemChatMessage (systemPrompt ''Google Chrome''),
       HumanChatMessage ''Visit CNN.com and a new tab.'',
       AIChatMessage ''{Command}+t\<newline>https://cnn.com{Enter}'',
       HumanChatMessage ''open the news''],
      Some ([TypeStr ''cd ~''], None))"
proof -
  let ?chrome = "\<lparr>Program = ''Google Chrome'',
       Examples = [\<lparr>Input = ''Visit CNN.com and a new tab.'',
                    Output = ''{Command}+t\<newline>https://cnn.com{Enter}''\<rparr>]\<rparr>"
  let ?sent = "[SystemChatMessage (systemPrompt ''Google Chrome''),
                HumanChatMessage ''Visit CNN.com and a new tab.'',
                AIChatMessage ''{Command}+t\<newline>https://cnn.com{Enter}'',
                HumanChatMessage ''open the news'']"
  let ?llm = "\<lambda>messages :: ChatMessage list. if length messages = 4 then Some ''cd ~'' else None"
  have n: "map Program (Programs defaultConfig) = [''iTerm2'', ''Google Chrome'']"
    by (simp add: defaultConfig_def)
  have a: "\<forall>p\<in>set (Programs defaultConfig). Program p \<noteq> ''iterm2''"
    by (simp add: defaultConfig_def)
  have b: "filter (\<lambda>q. Program q = ''Google Chrome'') (Programs defaultConfig) = [?chrome]"
    by (simp add: defaultConfig_def)
  note none = messages_sent_to_language_model
                [of defaultConfig "\<lambda>messages. None" "''iterm2''" "''new tab''"]
  from none [THEN conjunct2, THEN conjunct2, THEN conjunct1, THEN mp, OF a]
  have c: "fst (handleText defaultConfig (\<lambda>messages. None) ''iterm2'' ''new tab'') =
     [SystemChatMessage (systemPrompt ''iterm2''), HumanChatMessage ''new tab'']" .
  note one = messages_sent_to_language_model
               [of defaultConfig ?llm "''Google Chrome''" "''open the news''"]
  from one [THEN conjunct2, THEN conjunct2, THEN conjunct2, THEN spec, THEN mp, OF b]
  have f: "fst (handleText defaultConfig ?llm ''Google Chrome'' ''open the news'') = ?sent"
    by simp
  have t: "simulateTyping ''cd ~'' = ([TypeStr ''cd ~''], None)" by code_simp
  note p = pair_of_let [OF one [THEN conjunct1]]
  have d: "handleText defaultConfig ?llm ''Google Chrome'' ''open the news'' =
             (?sent, Some ([TypeStr ''cd ~''], None))"
    using p unfolding f by (simp add: t)
  from n b c d show ?thesis by (intro conjI)
qed

end
